theory Spec2Isabelle
  imports Main "HOL-Library.Product_Lexorder" "HOL-Library.Multiset"
begin

section \<open>Python values used by \<open>tucan_gnn/conversion.py\<close>\<close>

text \<open>
  The module raises three kinds of exception: \<open>KeyError\<close> (a dictionary lookup of a
  missing key), \<open>ValueError\<close> (the builtin \<open>int\<close> on a string that is not an integer
  literal) and \<open>IndexError\<close> (a list index out of range). A function that may raise
  returns \<open>error + 'a\<close>, with \<open>Inl\<close> for the exception. Only the kind of the exception is
  modelled, not its message.

  Strings are lists of characters. The character classes below are those of ASCII text;
  text outside ASCII (where Python's \<open>\d\<close>, \<open>int\<close> and \<open>isalpha\<close> know further digits
  and letters) is outside the model. Python integers are unbounded: counts and node
  numbers read by \<open>int\<close> are of type \<open>int\<close>; positions counted by \<open>enumerate\<close> are
  natural numbers. The interpreter's configurable limit on the number of digits that
  \<open>int\<close> accepts is not modelled.
\<close>

datatype error = KeyError | ValueError | IndexError

subsection \<open>Dictionaries\<close>

text \<open>
  A Python \<open>dict\<close> keeps its keys in insertion order, and \<open>items()\<close> iterates in that
  order: a dictionary is an association list with distinct keys. Assigning to a key
  that is present replaces its value in place; assigning to a new key appends it.
\<close>

type_synonym ('k, 'v) dict = "('k \<times> 'v) list"

fun dict_set :: "('k, 'v) dict \<Rightarrow> 'k \<Rightarrow> 'v \<Rightarrow> ('k, 'v) dict" where
  "dict_set [] k v = [(k, v)]"
| "dict_set ((k', v') # d) k v =
     (if k' = k then (k, v) # d else (k', v') # dict_set d k v)"

definition dict_get :: "('k, 'v) dict \<Rightarrow> 'k \<Rightarrow> error + 'v" where
  "dict_get d k = (case map_of d k of None \<Rightarrow> Inl KeyError | Some v \<Rightarrow> Inr v)"

text \<open>\<open>dict(pairs)\<close> and \<open>OrderedDict(pairs)\<close>: the pairs are assigned one by one.\<close>

definition dict_of_pairs :: "('k \<times> 'v) list \<Rightarrow> ('k, 'v) dict" where
  "dict_of_pairs ps = fold (\<lambda>(k, v) d. dict_set d k v) ps []"

subsection \<open>Loops that may raise\<close>

text \<open>
  \<open>for x in xs: s = f x s\<close>, where the body may raise: the first exception ends the
  loop. \<open>map_err\<close> is the list comprehension \<open>[f x for x in xs]\<close>.
\<close>

fun fold_err :: "('a \<Rightarrow> 's \<Rightarrow> error + 's) \<Rightarrow> 'a list \<Rightarrow> 's \<Rightarrow> error + 's" where
  "fold_err f [] s = Inr s"
| "fold_err f (x # xs) s = (case f x s of Inl e \<Rightarrow> Inl e | Inr s' \<Rightarrow> fold_err f xs s')"

fun map_err :: "('a \<Rightarrow> error + 'b) \<Rightarrow> 'a list \<Rightarrow> error + 'b list" where
  "map_err f [] = Inr []"
| "map_err f (x # xs) =
     (case f x of Inl e \<Rightarrow> Inl e
      | Inr y \<Rightarrow> (case map_err f xs of Inl e \<Rightarrow> Inl e | Inr ys \<Rightarrow> Inr (y # ys)))"

subsection \<open>Character classes and string builtins\<close>

definition is_digit :: "char \<Rightarrow> bool" where
  "is_digit c = (48 \<le> (of_char c :: nat) \<and> (of_char c :: nat) \<le> 57)"

definition is_upper :: "char \<Rightarrow> bool" where
  "is_upper c = (65 \<le> (of_char c :: nat) \<and> (of_char c :: nat) \<le> 90)"

definition is_lower :: "char \<Rightarrow> bool" where
  "is_lower c = (97 \<le> (of_char c :: nat) \<and> (of_char c :: nat) \<le> 122)"

text \<open>\<open>str.isalpha()\<close>: at least one character, and all of them letters.\<close>

definition isalpha :: "string \<Rightarrow> bool" where
  "isalpha s = (s \<noteq> [] \<and> (\<forall>c \<in> set s. is_upper c \<or> is_lower c))"

text \<open>
  The whitespace that \<open>int\<close> skips at both ends of an ASCII string: space, tab, line
  feed, vertical tab, form feed and carriage return.
\<close>

definition is_space :: "char \<Rightarrow> bool" where
  "is_space c = ((of_char c :: nat) = 32 \<or> (9 \<le> (of_char c :: nat) \<and> (of_char c :: nat) \<le> 13))"

definition digit_val :: "char \<Rightarrow> nat" where
  "digit_val c = of_char c - 48"

text \<open>
  The digits of an integer literal after its first digit: further digits, where one
  underscore may stand between two digits. \<open>acc\<close> is the value read so far.
\<close>

fun int_digits :: "nat \<Rightarrow> string \<Rightarrow> nat option" where
  "int_digits acc [] = Some acc"
| "int_digits acc [c] = (if is_digit c then Some (acc * 10 + digit_val c) else None)"
| "int_digits acc (c # d # cs) =
     (if is_digit c then int_digits (acc * 10 + digit_val c) (d # cs)
      else if c = CHR ''_'' \<and> is_digit d then int_digits (acc * 10 + digit_val d) cs
      else None)"

definition int_literal :: "string \<Rightarrow> nat option" where
  "int_literal s =
     (case s of [] \<Rightarrow> None
      | c # cs \<Rightarrow> if is_digit c then int_digits (digit_val c) cs else None)"

text \<open>
  \<open>int(s)\<close> in base ten: whitespace at both ends is dropped, one sign may come first,
  the rest is a literal. \<open>None\<close> stands for the \<open>ValueError\<close> that \<open>int\<close> raises.
\<close>

definition py_int :: "string \<Rightarrow> int option" where
  "py_int s =
     (case rev (dropWhile is_space (rev (dropWhile is_space s))) of
        [] \<Rightarrow> None
      | c # cs \<Rightarrow>
          if c = CHR ''-'' then map_option (\<lambda>n. - int n) (int_literal cs)
          else if c = CHR ''+'' then map_option int (int_literal cs)
          else map_option int (int_literal (c # cs)))"

text \<open>\<open>s.split(sep)\<close> for a separator of one character.\<close>

function str_split :: "char \<Rightarrow> string \<Rightarrow> string list" where
  "str_split sep s =
     (case dropWhile (\<lambda>c. c \<noteq> sep) s of
        [] \<Rightarrow> [s]
      | _ # rest \<Rightarrow> takeWhile (\<lambda>c. c \<noteq> sep) s # str_split sep rest)"
  by pat_completeness auto
termination
proof (relation "measure (\<lambda>(sep, s). length s)")
  show "wf (measure (\<lambda>(sep, s). length s))" by simp
next
  fix sep :: char and s :: string and x rest
  assume "dropWhile (\<lambda>c. c \<noteq> sep) s = x # rest"
  then have "length (x # rest) \<le> length s"
    using length_dropWhile_le [of "\<lambda>c. c \<noteq> sep" s] by simp
  then show "((sep, rest), (sep, s)) \<in> measure (\<lambda>(sep, s). length s)" by simp
qed

declare str_split.simps [simp del]

text \<open>
  \<open>re.split("(\d+)", s)\<close>: the text between the maximal runs of digits and, because of
  the group, the runs themselves, in turn. The list starts and ends with a text
  between runs, which is empty where the string starts or ends with a digit.
\<close>

function re_split_digits :: "string \<Rightarrow> string list" where
  "re_split_digits s =
     (if dropWhile (\<lambda>c. \<not> is_digit c) s = [] then [s]
      else takeWhile (\<lambda>c. \<not> is_digit c) s
         # takeWhile is_digit (dropWhile (\<lambda>c. \<not> is_digit c) s)
         # re_split_digits (dropWhile is_digit (dropWhile (\<lambda>c. \<not> is_digit c) s)))"
  by pat_completeness auto
termination
proof (relation "measure length")
  show "wf (measure length)" by simp
next
  fix s :: string
  assume ne: "dropWhile (\<lambda>c. \<not> is_digit c) s \<noteq> []"
  then have "is_digit (hd (dropWhile (\<lambda>c. \<not> is_digit c) s))"
    using hd_dropWhile [of "\<lambda>c. \<not> is_digit c" s] by simp
  with ne have "length (dropWhile is_digit (dropWhile (\<lambda>c. \<not> is_digit c) s))
      < length (dropWhile (\<lambda>c. \<not> is_digit c) s)"
    by (cases "dropWhile (\<lambda>c. \<not> is_digit c) s")
       (simp_all add: le_imp_less_Suc length_dropWhile_le)
  also have "\<dots> \<le> length s" by (rule length_dropWhile_le)
  finally show "(dropWhile is_digit (dropWhile (\<lambda>c. \<not> is_digit c) s), s) \<in> measure length"
    by simp
qed

declare re_split_digits.simps [simp del]

text \<open>
  \<open>re.findall('[A-Z][^A-Z]*', s)\<close>: each capital letter with the characters up to the
  next capital letter; what stands before the first capital letter is skipped.
\<close>

function re_findall_capital :: "string \<Rightarrow> string list" where
  "re_findall_capital [] = []"
| "re_findall_capital (c # cs) =
     (if is_upper c
      then (c # takeWhile (\<lambda>x. \<not> is_upper x) cs)
         # re_findall_capital (dropWhile (\<lambda>x. \<not> is_upper x) cs)
      else re_findall_capital cs)"
  by pat_completeness auto
termination
  by (relation "measure length") (simp_all add: le_imp_less_Suc length_dropWhile_le)

section \<open>The lookup tables\<close>

text \<open>
  \<open>element_symbols\<close> is imported from the package \<open>tucan\<close>: it is a parameter of the
  model, the list of element symbols in the order of their atomic numbers. The module
  builds both tables from it when it is loaded:
  \<^verbatim>\<open>
  for i, element in enumerate(element_symbols):
      atom_number_dict[element] = i+1
      number_atom_dict[i+1] = element
  \<close>
\<close>

definition atom_number_dict :: "string list \<Rightarrow> (string, nat) dict" where
  "atom_number_dict element_symbols =
     fold (\<lambda>(i, element) d. dict_set d element (i + 1)) (enumerate 0 element_symbols) []"

definition number_atom_dict :: "string list \<Rightarrow> (nat, string) dict" where
  "number_atom_dict element_symbols =
     fold (\<lambda>(i, element) d. dict_set d (i + 1) element) (enumerate 0 element_symbols) []"

section \<open>The functions of the module\<close>

subsection \<open>\<open>element_count_from_sum_formula\<close>\<close>

text \<open>
  The body of the loop over the split formula. The state is the pair of
  \<open>previous_element\<close> and \<open>element_count\<close>.
\<close>

definition scan_substring ::
  "string \<Rightarrow> string \<times> (string, int) dict \<Rightarrow> error + string \<times> (string, int) dict" where
  "scan_substring substring st =
     (case st of (previous_element, element_count) \<Rightarrow>
        let split_by_capital_letter = re_findall_capital substring in
        if split_by_capital_letter = [] then
          (case py_int substring of
             None \<Rightarrow> Inl ValueError
           | Some n \<Rightarrow> Inr (previous_element, dict_set element_count previous_element n))
        else if length split_by_capital_letter = 1 then
          Inr (hd split_by_capital_letter, element_count)
        else
          Inr (last split_by_capital_letter,
               fold (\<lambda>element d. dict_set d element 1)
                 (butlast split_by_capital_letter) element_count))"

text \<open>
  The first lines of the function: the formula is split, and the last piece is popped
  when it is the empty string.
\<close>

definition split_sum_formula :: "string \<Rightarrow> string list" where
  "split_sum_formula sum_form =
     (let split_sum_form = re_split_digits sum_form
      in if last split_sum_form = [] then butlast split_sum_form else split_sum_form)"

text \<open>
  The rest of the function, from the loop on, for the split formula and the state the
  loop starts in. \<open>split_sum_form[-1]\<close> raises \<open>IndexError\<close> on the empty list.
\<close>

definition count_tokens ::
  "string list \<Rightarrow> string \<times> (string, int) dict \<Rightarrow> error + (string, int) dict" where
  "count_tokens split_sum_form st =
     (case fold_err scan_substring split_sum_form st of
        Inl e \<Rightarrow> Inl e
      | Inr (previous_element, element_count) \<Rightarrow>
          if split_sum_form = [] then Inl IndexError
          else if isalpha (last split_sum_form)
          then Inr (dict_set element_count previous_element 1)
          else Inr element_count)"

text \<open>The loop starts with \<open>previous_element = ""\<close> and the empty dictionary.\<close>

definition element_count_from_sum_formula :: "string \<Rightarrow> error + (string, int) dict" where
  "element_count_from_sum_formula sum_form =
     count_tokens (split_sum_formula sum_form) ([], [])"

subsection \<open>\<open>graph_nodes_from_element_count\<close>\<close>

text \<open>
  The inner loop \<open>for i in range(0, value): node_list.append(number_atom_dict[key])\<close>
  looks the key up only when it runs at least once.
\<close>

definition graph_nodes_from_element_count ::
  "string list \<Rightarrow> (string, int) dict \<Rightarrow> error + (nat, string) dict" where
  "graph_nodes_from_element_count element_symbols element_count =
     (case fold_err
             (\<lambda>(key, val) d.
                case dict_get (atom_number_dict element_symbols) key of
                  Inl e \<Rightarrow> Inl e
                | Inr n \<Rightarrow> Inr (dict_set d n val))
             element_count [] of
        Inl e \<Rightarrow> Inl e
      | Inr element_count_by_atom_number \<Rightarrow>
          let element_count_by_atom_number =
                dict_of_pairs (sort element_count_by_atom_number)
          in case fold_err
                    (\<lambda>(key, val) node_list.
                       if val \<le> 0 then Inr node_list
                       else case dict_get (number_atom_dict element_symbols) key of
                              Inl e \<Rightarrow> Inl e
                            | Inr element \<Rightarrow> Inr (node_list @ replicate (nat val) element))
                    element_count_by_atom_number [] of
               Inl e \<Rightarrow> Inl e
             | Inr node_list \<Rightarrow>
                 Inr (fold (\<lambda>(i, element) graph_nodes. dict_set graph_nodes (i + 1) element)
                        (enumerate 0 node_list) []))"

subsection \<open>\<open>convert_graph_nodes_element_to_atomic_number\<close>\<close>

definition convert_graph_nodes_element_to_atomic_number ::
  "string list \<Rightarrow> (nat, string) dict \<Rightarrow> error + (nat, nat) dict" where
  "convert_graph_nodes_element_to_atomic_number element_symbols graph_nodes =
     fold_err
       (\<lambda>(node, val) graph_nodes_converted.
          case dict_get (atom_number_dict element_symbols) val of
            Inl e \<Rightarrow> Inl e
          | Inr n \<Rightarrow> Inr (dict_set graph_nodes_converted node n))
       graph_nodes []"

subsection \<open>\<open>tucan_string_to_graph_nodes\<close>\<close>

text \<open>
  The values of the node dictionary are element symbols, or atomic numbers when
  \<open>use_element_symbols\<close> is \<open>False\<close>. \<open>tucan_string.split("/")[0]\<close> never raises:
  \<open>split\<close> returns at least one string.
\<close>

datatype node_label = Symbol string | AtomicNumber nat

definition tucan_string_to_graph_nodes ::
  "string list \<Rightarrow> string \<Rightarrow> bool \<Rightarrow> error + (nat, node_label) dict" where
  "tucan_string_to_graph_nodes element_symbols tucan_string use_element_symbols =
     (case str_split CHR ''/'' tucan_string of
        [] \<Rightarrow> Inl IndexError
      | sum_formula # _ \<Rightarrow>
          (case element_count_from_sum_formula sum_formula of
             Inl e \<Rightarrow> Inl e
           | Inr element_counts \<Rightarrow>
               (case graph_nodes_from_element_count element_symbols element_counts of
                  Inl e \<Rightarrow> Inl e
                | Inr graph_nodes \<Rightarrow>
                    if \<not> use_element_symbols then
                      (case convert_graph_nodes_element_to_atomic_number
                              element_symbols graph_nodes of
                         Inl e \<Rightarrow> Inl e
                       | Inr converted \<Rightarrow> Inr (map (\<lambda>(i, n). (i, AtomicNumber n)) converted))
                    else Inr (map (\<lambda>(i, s). (i, Symbol s)) graph_nodes))))"

subsection \<open>\<open>tucan_string_to_graph_edges\<close>\<close>

text \<open>
  The last three lines of the function, on the edge section: split at \<open>)\<close> and drop
  the last piece, drop the first character of each piece, split each at \<open>-\<close> and
  convert every part with \<open>int\<close>. A tuple of integers is a list: the code builds a
  tuple of as many integers as the piece has parts.
\<close>

definition edges_of_section :: "string \<Rightarrow> error + int list list" where
  "edges_of_section edge_section =
     (let edges_with_opening_bracket = butlast (str_split CHR '')'' edge_section);
          edges = map (drop 1) edges_with_opening_bracket
      in map_err
           (\<lambda>edge. map_err
              (\<lambda>node. case py_int node of None \<Rightarrow> Inl ValueError | Some n \<Rightarrow> Inr n)
              (str_split CHR ''-'' edge))
           edges)"

definition tucan_string_to_graph_edges :: "string \<Rightarrow> error + int list list" where
  "tucan_string_to_graph_edges tucan_string =
     (let sections = str_split CHR ''/'' tucan_string
      in if length sections < 2 then Inl IndexError
         else edges_of_section (sections ! 1))"

section \<open>Well-formed input\<close>

text \<open>
  The notions the properties are stated with. An element symbol is a capital letter
  followed by small letters. The value of a string of digits is its decimal value.
  A sum formula is written from pairs of a symbol and the digits of its count, where
  no digits stand for the count one.
\<close>

definition element_symbol :: "string \<Rightarrow> bool" where
  "element_symbol s = (case s of [] \<Rightarrow> False | c # cs \<Rightarrow> is_upper c \<and> list_all is_lower cs)"

definition decimal :: "string \<Rightarrow> nat" where
  "decimal ds = fold (\<lambda>c n. n * 10 + digit_val c) ds 0"

definition formula_pair :: "string \<times> string \<Rightarrow> bool" where
  "formula_pair p = (element_symbol (fst p) \<and> list_all is_digit (snd p))"

definition sum_formula_of :: "(string \<times> string) list \<Rightarrow> string" where
  "sum_formula_of ps = concat (map (\<lambda>(s, ds). s @ ds) ps)"

definition count_of :: "string \<Rightarrow> int" where
  "count_of ds = (if ds = [] then 1 else int (decimal ds))"

text \<open>
  A node number is written with one or more digits. An edge section is written from
  pairs of node numbers, each pair as \<open>(a-b)\<close>.
\<close>

definition node_number :: "string \<Rightarrow> bool" where
  "node_number a = (a \<noteq> [] \<and> list_all is_digit a)"

definition edge_section_of :: "(string \<times> string) list \<Rightarrow> string" where
  "edge_section_of es = concat (map (\<lambda>(a, b). CHR ''('' # a @ CHR ''-'' # b @ '')'') es)"

text \<open>
  The same with any number of node numbers between the brackets, joined by \<open>-\<close>.
\<close>

fun join_parts :: "string list \<Rightarrow> string" where
  "join_parts [] = []"
| "join_parts [p] = p"
| "join_parts (p # q # ps) = p @ CHR ''-'' # join_parts (q # ps)"

definition tuple_section_of :: "string list list \<Rightarrow> string" where
  "tuple_section_of pss = concat (map (\<lambda>ps. CHR ''('' # join_parts ps @ '')'') pss)"

section \<open>Dictionaries and the lookup tables\<close>

lemma map_of_dict_set: "map_of (dict_set d k v) = (map_of d)(k \<mapsto> v)"
  by (induction d) (auto simp: fun_eq_iff)

lemma keys_dict_set: "fst ` set (dict_set d k v) = insert k (fst ` set d)"
  by (simp add: dom_map_of_conv_image_fst [symmetric] map_of_dict_set)

lemma dict_set_new: "k \<notin> fst ` set d \<Longrightarrow> dict_set d k v = d @ [(k, v)]"
  by (induction d) auto

lemma distinct_dict_set: "distinct (map fst d) \<Longrightarrow> distinct (map fst (dict_set d k v))"
proof (induction d)
  case Nil
  then show ?case by simp
next
  case (Cons p d)
  obtain k' v' where p: "p = (k', v')" by (cases p)
  from Cons have "k' \<notin> fst ` set d" and "distinct (map fst (dict_set d k v))"
    by (simp_all add: p)
  then show ?case
    using Cons.prems by (auto simp: p keys_dict_set)
qed

lemma fold_dict_set_new:
  "distinct (map fst ps) \<Longrightarrow> fst ` set ps \<inter> fst ` set d = {} \<Longrightarrow>
   fold (\<lambda>(k, v) d. dict_set d k v) ps d = d @ ps"
proof (induction ps arbitrary: d)
  case Nil
  then show ?case by simp
next
  case (Cons p ps)
  obtain k v where p: "p = (k, v)" by (cases p)
  from Cons.prems have new: "k \<notin> fst ` set d" by (auto simp: p)
  have "fst ` set ps \<inter> fst ` set (d @ [(k, v)]) = {}"
    using Cons.prems by (auto simp: p)
  with Cons.IH [of "d @ [(k, v)]"] Cons.prems show ?case
    by (simp add: p dict_set_new [OF new])
qed

lemma dict_of_pairs_distinct: "distinct (map fst ps) \<Longrightarrow> dict_of_pairs ps = ps"
  using fold_dict_set_new [of ps "[]"] by (simp add: dict_of_pairs_def)

lemma distinct_fold_dict_set:
  "distinct (map fst d) \<Longrightarrow> distinct (map fst (fold (\<lambda>x d. dict_set d (f x) (g x)) xs d))"
  by (induction xs arbitrary: d) (simp_all add: distinct_dict_set)

lemma atom_number_dict_snoc:
  "atom_number_dict (xs @ [x]) = dict_set (atom_number_dict xs) x (Suc (length xs))"
  by (simp add: atom_number_dict_def enumerate_append_eq)

lemma number_atom_dict_snoc:
  "number_atom_dict (xs @ [x]) = dict_set (number_atom_dict xs) (Suc (length xs)) x"
  by (simp add: number_atom_dict_def enumerate_append_eq)

lemma map_of_number_atom_dict:
  "map_of (number_atom_dict syms) n =
     (if 1 \<le> n \<and> n \<le> length syms then Some (syms ! (n - 1)) else None)"
proof (induction syms rule: rev_induct)
  case Nil
  then show ?case by (simp add: number_atom_dict_def)
next
  case (snoc x xs)
  then show ?case
    by (auto simp: number_atom_dict_snoc map_of_dict_set nth_append)
qed

lemma map_of_atom_number_dict_Some:
  "map_of (atom_number_dict syms) s = Some n \<Longrightarrow>
     1 \<le> n \<and> n \<le> length syms \<and> syms ! (n - 1) = s"
proof (induction syms rule: rev_induct)
  case Nil
  then show ?case by (simp add: atom_number_dict_def)
next
  case (snoc x xs)
  then show ?case
    by (auto simp: atom_number_dict_snoc map_of_dict_set nth_append split: if_splits)
qed

lemma map_of_atom_number_dict_None:
  "map_of (atom_number_dict syms) s = None \<longleftrightarrow> s \<notin> set syms"
proof (induction syms rule: rev_induct)
  case Nil
  then show ?case by (simp add: atom_number_dict_def)
next
  case (snoc x xs)
  then show ?case
    by (auto simp: atom_number_dict_snoc map_of_dict_set)
qed

lemma number_of_atom_number:
  "map_of (atom_number_dict syms) s = Some n \<Longrightarrow> map_of (number_atom_dict syms) n = Some s"
  using map_of_atom_number_dict_Some [of syms s n] by (simp add: map_of_number_atom_dict)

lemma atom_number_inj:
  "map_of (atom_number_dict syms) s = Some n \<Longrightarrow> map_of (atom_number_dict syms) t = Some n \<Longrightarrow> s = t"
  using map_of_atom_number_dict_Some [of syms s n] map_of_atom_number_dict_Some [of syms t n]
  by simp

section \<open>The loops of the node labeler\<close>

lemma number_loop_ok:
  "\<forall>k \<in> fst ` set ec. map_of A k \<noteq> None \<Longrightarrow>
   fold_err (\<lambda>(key, val) d. case dict_get A key of Inl e \<Rightarrow> Inl e
                             | Inr n \<Rightarrow> Inr (dict_set d n val)) ec d
   = Inr (fold (\<lambda>(k, v) d. dict_set d k v) (map (\<lambda>(k, v). (the (map_of A k), v)) ec) d)"
proof (induction ec arbitrary: d)
  case Nil
  then show ?case by simp
next
  case (Cons p ec)
  obtain k v where p: "p = (k, v)" by (cases p)
  from Cons.prems obtain n where n: "map_of A k = Some n" by (auto simp: p)
  from Cons.prems have "\<forall>k \<in> fst ` set ec. map_of A k \<noteq> None" by simp
  from Cons.IH [OF this] show ?case by (simp add: p n dict_get_def)
qed

lemma number_loop_fail:
  "\<exists>k \<in> fst ` set ec. map_of A k = None \<Longrightarrow>
   fold_err (\<lambda>(key, val) d. case dict_get A key of Inl e \<Rightarrow> Inl e
                             | Inr n \<Rightarrow> Inr (dict_set d n val)) ec d
   = Inl KeyError"
proof (induction ec arbitrary: d)
  case Nil
  then show ?case by simp
next
  case (Cons p ec)
  obtain k v where p: "p = (k, v)" by (cases p)
  show ?case
  proof (cases "map_of A k")
    case None
    then show ?thesis by (simp add: p dict_get_def)
  next
    case (Some n)
    with Cons.prems have "\<exists>k \<in> fst ` set ec. map_of A k = None" by (auto simp: p)
    from Cons.IH [OF this] show ?thesis by (simp add: p Some dict_get_def)
  qed
qed

lemma symbol_loop:
  "\<forall>(n, v) \<in> set ps. 0 < v \<longrightarrow> map_of N n \<noteq> None \<Longrightarrow>
   fold_err (\<lambda>(key, val) node_list.
               if val \<le> 0 then Inr node_list
               else case dict_get N key of Inl e \<Rightarrow> Inl e
                    | Inr element \<Rightarrow> Inr (node_list @ replicate (nat val) element)) ps acc
   = Inr (acc @ concat (map (\<lambda>(n, v). replicate (nat v) (the (map_of N n))) ps))"
proof (induction ps arbitrary: acc)
  case Nil
  then show ?case by simp
next
  case (Cons p ps)
  obtain n and v :: int where p: "p = (n, v)" by (cases p)
  from Cons.prems have rest: "\<forall>(n, v) \<in> set ps. 0 < v \<longrightarrow> map_of N n \<noteq> None" by simp
  show ?case
  proof (cases "v \<le> 0")
    case True
    with Cons.IH [OF rest] show ?thesis by (simp add: p)
  next
    case False
    with Cons.prems obtain s where "map_of N n = Some s" by (auto simp: p)
    with False Cons.IH [OF rest] show ?thesis by (simp add: p dict_get_def)
  qed
qed

lemma enumerate_loop:
  "fold (\<lambda>(i, element) graph_nodes. dict_set graph_nodes (i + 1) element) (enumerate 0 xs) []
   = enumerate 1 xs"
proof -
  have "fold (\<lambda>(i, element) g. dict_set g (i + 1) element) (enumerate 0 xs) []
      = fold (\<lambda>(k, v) d. dict_set d k v) (map (\<lambda>(i, e). (Suc i, e)) (enumerate 0 xs)) []"
    by (simp add: fold_map comp_def case_prod_unfold)
  also have "map (\<lambda>(i, e). (Suc i, e)) (enumerate 0 xs) = enumerate 1 xs"
    by (simp add: enumerate_Suc_eq apfst_def map_prod_def case_prod_unfold)
  also have "fold (\<lambda>(k, v) d. dict_set d k v) (enumerate 1 xs) [] = enumerate 1 xs"
    using fold_dict_set_new [of "enumerate 1 xs" "[]"] by simp
  finally show ?thesis .
qed

section \<open>The node labeler in closed form\<close>

lemma sort_cong_mset: "mset xs = mset ys \<Longrightarrow> sort xs = sort (ys :: ('a :: linorder) list)"
  by (rule properties_for_sort) simp_all

lemma distinct_keys_sort:
  "distinct (map fst ps) \<Longrightarrow> distinct (map fst (sort (ps :: ('a :: linorder \<times> 'b :: linorder) list)))"
proof -
  have "mset (map fst (sort ps)) = mset (map fst ps)"
    by simp
  then show "distinct (map fst ps) \<Longrightarrow> distinct (map fst (sort ps))"
    using mset_eq_imp_distinct_iff by blast
qed

lemma distinct_atomic_numbers:
  assumes "distinct (map fst ec)"
    and "\<forall>k \<in> fst ` set ec. map_of (atom_number_dict syms) k \<noteq> None"
  shows "distinct (map fst (map (\<lambda>(k, v). (the (map_of (atom_number_dict syms) k), v)) ec))"
proof -
  have "inj_on (\<lambda>k. the (map_of (atom_number_dict syms) k)) (fst ` set ec)"
  proof (rule inj_onI)
    fix s t
    assume "s \<in> fst ` set ec" "t \<in> fst ` set ec"
      and eq: "the (map_of (atom_number_dict syms) s) = the (map_of (atom_number_dict syms) t)"
    with assms(2) have "map_of (atom_number_dict syms) s \<noteq> None"
      and "map_of (atom_number_dict syms) t \<noteq> None" by blast+
    then obtain m n where
      "map_of (atom_number_dict syms) s = Some m" "map_of (atom_number_dict syms) t = Some n"
      by auto
    with eq show "s = t" using atom_number_inj [of syms s m t] by simp
  qed
  moreover have "map fst (map (\<lambda>(k, v). (the (map_of (atom_number_dict syms) k), v)) ec)
      = map (\<lambda>k. the (map_of (atom_number_dict syms) k)) (map fst ec)"
    by (simp add: case_prod_unfold comp_def)
  ultimately show ?thesis
    using assms(1) by (simp only: distinct_map) simp
qed

lemma graph_nodes_known:
  assumes "distinct (map fst ec)"
    and "\<forall>k \<in> fst ` set ec. map_of (atom_number_dict syms) k \<noteq> None"
  shows "graph_nodes_from_element_count syms ec =
     Inr (enumerate 1 (concat (map (\<lambda>(n, v). replicate (nat v) (the (map_of (number_atom_dict syms) n)))
            (sort (map (\<lambda>(k, v). (the (map_of (atom_number_dict syms) k), v)) ec)))))"
proof -
  let ?ps = "map (\<lambda>(k, v). (the (map_of (atom_number_dict syms) k), v)) ec"
  have d: "distinct (map fst ?ps)" by (rule distinct_atomic_numbers [OF assms])
  have 1: "fold (\<lambda>(k, v) d. dict_set d k v) ?ps [] = ?ps"
    using fold_dict_set_new [OF d, of "[]"] by simp
  have 2: "dict_of_pairs (sort ?ps) = sort ?ps"
    by (rule dict_of_pairs_distinct [OF distinct_keys_sort [OF d]])
  have 3: "\<forall>(n, v) \<in> set (sort ?ps). 0 < v \<longrightarrow> map_of (number_atom_dict syms) n \<noteq> None"
  proof -
    have "map_of (number_atom_dict syms) n \<noteq> None" if "(n, v) \<in> set ?ps" for n v
    proof -
      from that obtain k where k: "k \<in> fst ` set ec" and n: "n = the (map_of (atom_number_dict syms) k)"
        by force
      from assms(2) k have "map_of (atom_number_dict syms) k \<noteq> None" by blast
      with n have "map_of (atom_number_dict syms) k = Some n" by auto
      from number_of_atom_number [OF this] show ?thesis by simp
    qed
    then have "\<forall>(n, v) \<in> set ?ps. 0 < v \<longrightarrow> map_of (number_atom_dict syms) n \<noteq> None"
      by blast
    then show ?thesis by (simp only: set_sort)
  qed
  show ?thesis
    unfolding graph_nodes_from_element_count_def
    by (simp only: number_loop_ok [OF assms(2)] 1 2 Let_def sum.case symbol_loop [OF 3]
          enumerate_loop append_Nil)
qed

lemma graph_nodes_unknown:
  "\<exists>k \<in> fst ` set ec. map_of (atom_number_dict syms) k = None \<Longrightarrow>
   graph_nodes_from_element_count syms ec = Inl KeyError"
  unfolding graph_nodes_from_element_count_def
  by (simp only: number_loop_fail sum.case)

lemma dict_get_KeyError: "dict_get d k = Inl KeyError \<longleftrightarrow> map_of d k = None"
  by (simp add: dict_get_def split: option.splits)

lemma dict_get_Inr: "dict_get d k = Inr v \<longleftrightarrow> map_of d k = Some v"
  by (simp add: dict_get_def split: option.splits)

lemma sorted_concat_replicate:
  "sorted (map fst ps) \<Longrightarrow> sorted (concat (map (\<lambda>(n, v). replicate (f v) n) ps))"
proof (induction ps)
  case Nil
  then show ?case by simp
next
  case (Cons p ps)
  obtain n v where p: "p = (n, v)" by (cases p)
  from Cons have "sorted (concat (map (\<lambda>(n, v). replicate (f v) n) ps))" by simp
  moreover from Cons.prems
  have "\<forall>x \<in> set (concat (map (\<lambda>(n, v). replicate (f v) n) ps)). n \<le> x"
    by (auto simp: p)
  ultimately show ?case by (auto simp: p sorted_append)
qed

lemma sorted_keys_sort:
  "sorted (map fst (sort (ps :: ('a :: linorder \<times> 'b :: linorder) list)))"
proof -
  have "sorted (sort ps)" by simp
  then have "sorted_wrt (\<lambda>x y. fst x \<le> fst y) (sort ps)"
    by (rule sorted_wrt_mono_rel [rotated]) (auto simp: less_eq_prod_def)
  then show ?thesis by (simp add: sorted_wrt_map)
qed

lemma length_concat_replicate:
  "length (concat (map (\<lambda>(n, v). replicate (nat v) (f n)) ps)) = sum_list (map (\<lambda>p. nat (snd p)) ps)"
  by (induction ps) (auto simp: case_prod_unfold)

lemma sum_list_sort:
  "sum_list (map f (sort xs)) = sum_list (map (f :: 'a :: linorder \<Rightarrow> nat) xs)"
proof -
  have "mset (map f (sort xs)) = mset (map f xs)" by simp
  then show ?thesis by (metis sum_mset_sum_list)
qed

lemma int_sum_list_nat:
  "\<forall>v \<in> snd ` set ps. (0::int) \<le> v \<Longrightarrow> int (sum_list (map (\<lambda>p. nat (snd p)) ps)) = sum_list (map snd ps)"
  by (induction ps) auto

section \<open>Properties of the node labeler\<close>

lemma node_list_sorted:
  assumes "\<forall>k \<in> fst ` set ec. map_of (atom_number_dict syms) k \<noteq> None"
  shows "sorted (map (\<lambda>s. the (map_of (atom_number_dict syms) s))
           (concat (map (\<lambda>(n, v). replicate (nat v) (the (map_of (number_atom_dict syms) n)))
              (sort (map (\<lambda>(k, v). (the (map_of (atom_number_dict syms) k), v)) ec)))))"
proof -
  let ?A = "atom_number_dict syms"
  let ?N = "number_atom_dict syms"
  let ?ps = "map (\<lambda>(k, v). (the (map_of ?A k), v)) ec"
  have inv: "the (map_of ?A (the (map_of ?N n))) = n" if "(n, v) \<in> set (sort ?ps)" for n v
  proof -
    from that have "(n, v) \<in> set ?ps" by simp
    then obtain k where k: "k \<in> fst ` set ec" and n: "n = the (map_of ?A k)" by force
    from assms k have "map_of ?A k \<noteq> None" by blast
    with n have kn: "map_of ?A k = Some n" by auto
    from number_of_atom_number [OF this] kn show ?thesis by simp
  qed
  have "map (\<lambda>s. the (map_of ?A s))
          (concat (map (\<lambda>(n, v). replicate (nat v) (the (map_of ?N n))) (sort ?ps)))
      = concat (map (\<lambda>(n, v). replicate (nat v) (the (map_of ?A (the (map_of ?N n))))) (sort ?ps))"
    by (simp add: map_concat comp_def case_prod_unfold)
  also have "\<dots> = concat (map (\<lambda>(n, v). replicate (nat v) n) (sort ?ps))"
  proof (rule arg_cong [where f = concat], rule map_cong)
    fix p assume "p \<in> set (sort ?ps)"
    then show "(case p of (n, v) \<Rightarrow> replicate (nat v) (the (map_of ?A (the (map_of ?N n)))))
        = (case p of (n, v) \<Rightarrow> replicate (nat v) n)"
      using inv [of "fst p" "snd p"] by (simp add: case_prod_unfold)
  qed simp
  finally show ?thesis
    using sorted_concat_replicate [OF sorted_keys_sort, of nat ?ps] by simp
qed

text \<open>
  C1. When every symbol of the element counts is in the lookup table,
  \<open>graph_nodes_from_element_count\<close> returns a node dictionary whose keys are
  \<open>1, 2, \<dots>, N\<close> without a gap, and a node of an element with a lower atomic number
  has a smaller node number than any node of an element with a higher atomic number.
\<close>

theorem graph_nodes_contiguous_and_ordered:
  assumes "distinct (map fst ec)"
    and "\<forall>k \<in> fst ` set ec. dict_get (atom_number_dict syms) k \<noteq> Inl KeyError"
  shows "\<exists>g. graph_nodes_from_element_count syms ec = Inr g
           \<and> map fst g = [1..<Suc (length g)]
           \<and> (\<forall>i j a b m n.
                 (i, a) \<in> set g \<and> (j, b) \<in> set g
                 \<and> dict_get (atom_number_dict syms) a = Inr m
                 \<and> dict_get (atom_number_dict syms) b = Inr n \<and> m < n
                 \<longrightarrow> i < j)"
proof -
  let ?A = "atom_number_dict syms"
  let ?N = "number_atom_dict syms"
  let ?xs = "concat (map (\<lambda>(n, v). replicate (nat v) (the (map_of ?N n)))
               (sort (map (\<lambda>(k, v). (the (map_of ?A k), v)) ec)))"
  from assms(2) have known: "\<forall>k \<in> fst ` set ec. map_of ?A k \<noteq> None"
    by (simp add: dict_get_KeyError)
  have g: "graph_nodes_from_element_count syms ec = Inr (enumerate 1 ?xs)"
    by (rule graph_nodes_known [OF assms(1) known])
  have keys: "map fst (enumerate 1 ?xs) = [1..<Suc (length (enumerate 1 ?xs))]"
    by simp
  have srt: "sorted (map (\<lambda>s. the (map_of ?A s)) ?xs)"
    by (rule node_list_sorted [OF known])
  have order: "i < j"
    if "(i, a) \<in> set (enumerate 1 ?xs)" "(j, b) \<in> set (enumerate 1 ?xs)"
      "dict_get ?A a = Inr m" "dict_get ?A b = Inr n" "m < n" for i j a b m n
  proof (rule ccontr)
    assume "\<not> i < j"
    then have le: "j - 1 \<le> i - 1" by simp
    from that(1) have i: "i - 1 < length ?xs" "?xs ! (i - 1) = a"
      by (auto simp: in_set_enumerate_eq)
    from that(2) have j: "?xs ! (j - 1) = b"
      by (auto simp: in_set_enumerate_eq)
    from i(1) have "i - 1 < length (map (\<lambda>s. the (map_of ?A s)) ?xs)" by simp
    from sorted_nth_mono [OF srt le this]
    have "the (map_of ?A (?xs ! (j - 1))) \<le> the (map_of ?A (?xs ! (i - 1)))"
      using i(1) le by simp
    with i(2) j that(3,4) have "n \<le> m" by (simp add: dict_get_Inr)
    with that(5) show False by simp
  qed
  from g keys order show ?thesis by blast
qed

theorem graph_nodes_contiguous_and_ordered_witness:
  "distinct (map fst [(''C'', 2 :: int), (''H'', 4), (''O'', 1)])
   \<and> dict_get (atom_number_dict [''H'', ''He'', ''Li'', ''Be'', ''B'', ''C'', ''N'', ''O'']) ''C'' = Inr 6
   \<and> dict_get (atom_number_dict [''H'', ''He'', ''Li'', ''Be'', ''B'', ''C'', ''N'', ''O'']) ''H'' = Inr 1
   \<and> dict_get (atom_number_dict [''H'', ''He'', ''Li'', ''Be'', ''B'', ''C'', ''N'', ''O'']) ''O'' = Inr 8
   \<and> (\<exists>g. graph_nodes_from_element_count [''H'', ''He'', ''Li'', ''Be'', ''B'', ''C'', ''N'', ''O'']
              [(''C'', 2), (''H'', 4), (''O'', 1)] = Inr g
           \<and> map fst g = [1..<Suc (length g)]
           \<and> (\<forall>i j a b m n.
                 (i, a) \<in> set g \<and> (j, b) \<in> set g
                 \<and> dict_get (atom_number_dict [''H'', ''He'', ''Li'', ''Be'', ''B'', ''C'', ''N'', ''O'']) a = Inr m
                 \<and> dict_get (atom_number_dict [''H'', ''He'', ''Li'', ''Be'', ''B'', ''C'', ''N'', ''O'']) b = Inr n
                 \<and> m < n
                 \<longrightarrow> i < j))"
proof -
  have d: "distinct (map fst [(''C'', 2 :: int), (''H'', 4), (''O'', 1)])" by simp
  have k: "\<forall>k \<in> fst ` set [(''C'', 2 :: int), (''H'', 4), (''O'', 1)].
         dict_get (atom_number_dict [''H'', ''He'', ''Li'', ''Be'', ''B'', ''C'', ''N'', ''O'']) k
           \<noteq> Inl KeyError"
    by (simp add: atom_number_dict_def dict_get_def enumerate_eq_zip upt_rec)
  have t: "dict_get (atom_number_dict [''H'', ''He'', ''Li'', ''Be'', ''B'', ''C'', ''N'', ''O'']) ''C'' = Inr 6
    \<and> dict_get (atom_number_dict [''H'', ''He'', ''Li'', ''Be'', ''B'', ''C'', ''N'', ''O'']) ''H'' = Inr 1
    \<and> dict_get (atom_number_dict [''H'', ''He'', ''Li'', ''Be'', ''B'', ''C'', ''N'', ''O'']) ''O'' = Inr 8"
    by (simp add: atom_number_dict_def dict_get_def enumerate_eq_zip upt_rec)
  from d t graph_nodes_contiguous_and_ordered [OF d k] show ?thesis by blast
qed

text \<open>
  C5. When every symbol of the element counts is in the lookup table (and no count is
  negative), the node dictionary has as many entries as the sum of the counts.
\<close>

theorem node_count_is_sum_of_counts:
  assumes "distinct (map fst ec)"
    and "\<forall>k \<in> fst ` set ec. dict_get (atom_number_dict syms) k \<noteq> Inl KeyError"
    and "\<forall>v \<in> snd ` set ec. 0 \<le> v"
  shows "\<exists>g. graph_nodes_from_element_count syms ec = Inr g
           \<and> int (length g) = sum_list (map snd ec)"
proof -
  let ?A = "atom_number_dict syms"
  let ?ps = "map (\<lambda>(k, v). (the (map_of ?A k), v)) ec"
  from assms(2) have known: "\<forall>k \<in> fst ` set ec. map_of ?A k \<noteq> None"
    by (simp add: dict_get_KeyError)
  have "sum_list (map (\<lambda>p. nat (snd p)) (sort ?ps)) = sum_list (map (\<lambda>p. nat (snd p)) ?ps)"
    by (rule sum_list_sort)
  also have "\<dots> = sum_list (map (\<lambda>p. nat (snd p)) ec)"
    by (simp add: comp_def case_prod_unfold)
  finally have "int (sum_list (map (\<lambda>p. nat (snd p)) (sort ?ps))) = sum_list (map snd ec)"
    using int_sum_list_nat [OF assms(3)] by simp
  then show ?thesis
    by (simp add: graph_nodes_known [OF assms(1) known] length_concat_replicate)
qed

theorem node_count_is_sum_of_counts_witness:
  "distinct (map fst [(''C'', 2 :: int), (''H'', 4), (''O'', 1)])
   \<and> dict_get (atom_number_dict [''H'', ''He'', ''Li'', ''Be'', ''B'', ''C'', ''N'', ''O'']) ''C'' = Inr 6
   \<and> dict_get (atom_number_dict [''H'', ''He'', ''Li'', ''Be'', ''B'', ''C'', ''N'', ''O'']) ''H'' = Inr 1
   \<and> dict_get (atom_number_dict [''H'', ''He'', ''Li'', ''Be'', ''B'', ''C'', ''N'', ''O'']) ''O'' = Inr 8
   \<and> (\<exists>g. graph_nodes_from_element_count [''H'', ''He'', ''Li'', ''Be'', ''B'', ''C'', ''N'', ''O'']
              [(''C'', 2), (''H'', 4), (''O'', 1)] = Inr g
           \<and> int (length g) = 7)"
proof -
  have d: "distinct (map fst [(''C'', 2 :: int), (''H'', 4), (''O'', 1)])" by simp
  have k: "\<forall>k \<in> fst ` set [(''C'', 2 :: int), (''H'', 4), (''O'', 1)].
         dict_get (atom_number_dict [''H'', ''He'', ''Li'', ''Be'', ''B'', ''C'', ''N'', ''O'']) k
           \<noteq> Inl KeyError"
    by (simp add: atom_number_dict_def dict_get_def enumerate_eq_zip upt_rec)
  have v: "\<forall>v \<in> snd ` set [(''C'', 2 :: int), (''H'', 4), (''O'', 1)]. 0 \<le> v" by simp
  have t: "dict_get (atom_number_dict [''H'', ''He'', ''Li'', ''Be'', ''B'', ''C'', ''N'', ''O'']) ''C'' = Inr 6
    \<and> dict_get (atom_number_dict [''H'', ''He'', ''Li'', ''Be'', ''B'', ''C'', ''N'', ''O'']) ''H'' = Inr 1
    \<and> dict_get (atom_number_dict [''H'', ''He'', ''Li'', ''Be'', ''B'', ''C'', ''N'', ''O'']) ''O'' = Inr 8"
    by (simp add: atom_number_dict_def dict_get_def enumerate_eq_zip upt_rec)
  have "\<exists>g. graph_nodes_from_element_count [''H'', ''He'', ''Li'', ''Be'', ''B'', ''C'', ''N'', ''O'']
              [(''C'', 2), (''H'', 4), (''O'', 1)] = Inr g \<and> int (length g) = 7"
    using node_count_is_sum_of_counts [OF d k v] by simp
  with d t show ?thesis by blast
qed

section \<open>The tokenizer on well-formed formulas\<close>

lemma digit_not_upper: "is_digit c \<Longrightarrow> \<not> is_upper c"
  by (simp add: is_digit_def is_upper_def)

lemma upper_not_digit: "is_upper c \<Longrightarrow> \<not> is_digit c"
  by (simp add: is_digit_def is_upper_def)

lemma lower_not_digit: "is_lower c \<Longrightarrow> \<not> is_digit c"
  by (simp add: is_digit_def is_lower_def)

lemma lower_not_upper: "is_lower c \<Longrightarrow> \<not> is_upper c"
  by (simp add: is_upper_def is_lower_def)

lemma digit_not_space: "is_digit c \<Longrightarrow> \<not> is_space c"
  by (auto simp: is_digit_def is_space_def)

lemma digit_not_sign: "is_digit c \<Longrightarrow> c \<noteq> CHR ''-'' \<and> c \<noteq> CHR ''+'' \<and> c \<noteq> CHR ''_''"
  by (auto simp: is_digit_def)

lemma int_digits_all_digits:
  "list_all is_digit cs \<Longrightarrow> int_digits acc cs = Some (fold (\<lambda>c n. n * 10 + digit_val c) cs acc)"
  by (induction acc cs rule: int_digits.induct) simp_all

lemma int_literal_digits:
  "ds \<noteq> [] \<Longrightarrow> list_all is_digit ds \<Longrightarrow> int_literal ds = Some (decimal ds)"
  by (cases ds) (simp_all add: int_literal_def decimal_def int_digits_all_digits)

lemma strip_digits:
  assumes "ds \<noteq> []" "list_all is_digit ds"
  shows "rev (dropWhile is_space (rev (dropWhile is_space ds))) = ds"
proof -
  from assms obtain c cs where ds: "ds = c # cs" by (cases ds) auto
  with assms have "\<not> is_space c" by (simp add: digit_not_space)
  then have 1: "dropWhile is_space ds = ds" by (simp add: ds)
  from assms have "is_digit (last ds)" by (simp add: list_all_iff)
  then have "\<not> is_space (hd (rev ds))" using assms(1) by (simp add: hd_rev digit_not_space)
  then have "dropWhile is_space (rev ds) = rev ds"
    using assms(1) by (cases "rev ds") simp_all
  with 1 show ?thesis by simp
qed

lemma py_int_digits:
  assumes "ds \<noteq> []" "list_all is_digit ds"
  shows "py_int ds = Some (int (decimal ds))"
proof -
  from assms obtain c cs where ds: "ds = c # cs" by (cases ds) auto
  with assms have "c \<noteq> CHR ''-''" "c \<noteq> CHR ''+''" using digit_not_sign [of c] by simp_all
  then show ?thesis
    using int_literal_digits [OF assms] unfolding py_int_def strip_digits [OF assms]
    by (simp add: ds)
qed

lemma re_split_no_digit:
  "\<forall>c \<in> set a. \<not> is_digit c \<Longrightarrow> re_split_digits a = [a]"
  by (subst re_split_digits.simps) simp

lemma re_split_group:
  assumes a: "\<forall>c \<in> set a. \<not> is_digit c"
    and d: "d \<noteq> []" "list_all is_digit d"
    and r: "rest = [] \<or> \<not> is_digit (hd rest)"
  shows "re_split_digits (a @ d @ rest) = a # d # re_split_digits rest"
proof -
  from d obtain x d' where dx: "d = x # d'" "is_digit x" by (cases d) auto
  from a have 1: "dropWhile (\<lambda>c. \<not> is_digit c) (a @ d @ rest) = d @ rest"
    by (simp add: dropWhile_append2 dx)
  from a have 2: "takeWhile (\<lambda>c. \<not> is_digit c) (a @ d @ rest) = a"
    by (simp add: takeWhile_append2 dx)
  from r have 3: "takeWhile is_digit rest = []" "dropWhile is_digit rest = rest"
    by (cases rest; simp)+
  from d(2) have 4: "takeWhile is_digit (d @ rest) = d" "dropWhile is_digit (d @ rest) = rest"
    by (simp_all add: takeWhile_append2 dropWhile_append2 list_all_iff 3)
  from d(1) have 5: "d @ rest \<noteq> []" by simp
  show ?thesis
    by (subst re_split_digits.simps) (simp only: 1 2 4 5 if_False)
qed

lemma re_split_nonempty: "re_split_digits s \<noteq> []"
  by (subst re_split_digits.simps) simp

lemma takeWhile_head: "xs = [] \<or> \<not> P (hd xs) \<Longrightarrow> takeWhile P xs = []"
  by (cases xs) auto

lemma dropWhile_head: "xs = [] \<or> \<not> P (hd xs) \<Longrightarrow> dropWhile P xs = xs"
  by (cases xs) auto

lemma element_symbol_chars:
  "element_symbol q \<Longrightarrow> \<exists>c cs. q = c # cs \<and> is_upper c \<and> list_all is_lower cs"
  by (cases q) (simp_all add: element_symbol_def)

lemma concat_symbols_head:
  "list_all element_symbol qs \<Longrightarrow> concat qs = [] \<or> is_upper (hd (concat qs))"
proof (induction qs)
  case Nil
  then show ?case by simp
next
  case (Cons q qs)
  then obtain c cs where "q = c # cs" "is_upper c" using element_symbol_chars [of q] by auto
  then show ?case by simp
qed

lemma concat_symbols_letters:
  "list_all element_symbol qs \<Longrightarrow> \<forall>c \<in> set (concat qs). is_upper c \<or> is_lower c"
proof (induction qs)
  case Nil
  then show ?case by simp
next
  case (Cons q qs)
  then obtain c cs where "q = c # cs" "is_upper c" "list_all is_lower cs"
    using element_symbol_chars [of q] by auto
  with Cons show ?case by (auto simp: list_all_iff)
qed

lemma concat_symbols_no_digit:
  "list_all element_symbol qs \<Longrightarrow> \<forall>c \<in> set (concat qs). \<not> is_digit c"
  using concat_symbols_letters [of qs] upper_not_digit lower_not_digit by blast

lemma findall_symbols:
  "list_all element_symbol qs \<Longrightarrow> re_findall_capital (concat qs) = qs"
proof (induction qs)
  case Nil
  then show ?case by simp
next
  case (Cons q qs)
  then obtain c cs where q: "q = c # cs" "is_upper c" "list_all is_lower cs"
    using element_symbol_chars [of q] by auto
  from Cons.prems have "list_all element_symbol qs" by simp
  from concat_symbols_head [OF this]
  have hd: "concat qs = [] \<or> \<not> \<not> is_upper (hd (concat qs))" by simp
  have 1: "takeWhile (\<lambda>x. \<not> is_upper x) (concat qs) = []"
    using hd by (intro takeWhile_head [where P = "\<lambda>x. \<not> is_upper x"])
  have 2: "dropWhile (\<lambda>x. \<not> is_upper x) (concat qs) = concat qs"
    using hd by (intro dropWhile_head [where P = "\<lambda>x. \<not> is_upper x"])
  from q(3) have low: "\<forall>x \<in> set cs. \<not> is_upper x"
    by (simp add: list_all_iff lower_not_upper)
  then have "takeWhile (\<lambda>x. \<not> is_upper x) (cs @ concat qs) = cs"
    and "dropWhile (\<lambda>x. \<not> is_upper x) (cs @ concat qs) = concat qs"
    by (simp_all add: takeWhile_append2 dropWhile_append2 1 2)
  with Cons q show ?case by simp
qed

lemma findall_no_capital:
  "\<forall>c \<in> set s. \<not> is_upper c \<Longrightarrow> re_findall_capital s = []"
  by (induction s) simp_all

lemma scan_symbols:
  assumes "list_all element_symbol qs" "qs \<noteq> []"
  shows "scan_substring (concat qs) (prev, ec)
       = Inr (last qs, fold (\<lambda>element d. dict_set d element 1) (butlast qs) ec)"
proof (cases "length qs = 1")
  case True
  then obtain q where q: "qs = [q]" by (cases qs) auto
  with assms have "re_findall_capital q = [q]" using findall_symbols [of "[q]"] by simp
  then show ?thesis by (simp add: scan_substring_def q)
next
  case False
  with assms show ?thesis
    by (simp add: scan_substring_def findall_symbols)
qed

lemma scan_digits:
  assumes "ds \<noteq> []" "list_all is_digit ds"
  shows "scan_substring ds (prev, ec) = Inr (prev, dict_set ec prev (int (decimal ds)))"
proof -
  from assms(2) have "re_findall_capital ds = []"
    by (intro findall_no_capital) (simp add: list_all_iff digit_not_upper)
  then show ?thesis
    by (simp add: scan_substring_def py_int_digits [OF assms])
qed

lemma count_tokens_Cons:
  "ts \<noteq> [] \<Longrightarrow> count_tokens (t # ts) st =
     (case scan_substring t st of Inl e \<Rightarrow> Inl e | Inr st' \<Rightarrow> count_tokens ts st')"
  by (simp add: count_tokens_def split: sum.splits)

lemma split_sum_formula_no_digit:
  "s \<noteq> [] \<Longrightarrow> \<forall>c \<in> set s. \<not> is_digit c \<Longrightarrow> split_sum_formula s = [s]"
  by (simp add: split_sum_formula_def re_split_no_digit)

lemma split_sum_formula_group:
  assumes "\<forall>c \<in> set a. \<not> is_digit c" "d \<noteq> []" "list_all is_digit d"
    "rest = [] \<or> \<not> is_digit (hd rest)"
  shows "split_sum_formula (a @ d @ rest) = a # d # split_sum_formula rest"
proof -
  have "re_split_digits rest \<noteq> []" by (rule re_split_nonempty)
  then show ?thesis
    by (simp add: split_sum_formula_def re_split_group [OF assms] Let_def)
qed

lemma split_sum_formula_empty: "split_sum_formula [] = []"
  by (simp add: split_sum_formula_def re_split_no_digit)

lemma split_sum_formula_nonempty: "s \<noteq> [] \<Longrightarrow> split_sum_formula s \<noteq> []"
proof -
  assume s: "s \<noteq> []"
  show ?thesis
  proof (cases "dropWhile (\<lambda>c. \<not> is_digit c) s = []")
    case True
    then have "re_split_digits s = [s]" by (subst re_split_digits.simps) simp
    with s show ?thesis by (simp add: split_sum_formula_def)
  next
    case False
    then have "re_split_digits s =
        takeWhile (\<lambda>c. \<not> is_digit c) s
      # takeWhile is_digit (dropWhile (\<lambda>c. \<not> is_digit c) s)
      # re_split_digits (dropWhile is_digit (dropWhile (\<lambda>c. \<not> is_digit c) s))"
      by (subst re_split_digits.simps) simp
    then show ?thesis
      using re_split_nonempty [of "dropWhile is_digit (dropWhile (\<lambda>c. \<not> is_digit c) s)"]
      by (simp add: split_sum_formula_def Let_def)
  qed
qed

lemma sum_formula_of_Cons: "sum_formula_of ((el, ds) # ps) = el @ ds @ sum_formula_of ps"
  by (simp add: sum_formula_of_def)

lemma sum_formula_of_Nil: "sum_formula_of [] = []"
  by (simp add: sum_formula_of_def)

lemma sum_formula_of_head:
  assumes "list_all formula_pair ps" "ps \<noteq> []"
  shows "sum_formula_of ps \<noteq> [] \<and> is_upper (hd (sum_formula_of ps))"
proof -
  from assms obtain el ds ps' where ps: "ps = (el, ds) # ps'" by (cases ps) auto
  with assms(1) have "element_symbol el" by (simp add: formula_pair_def)
  then obtain c cs where "el = c # cs" "is_upper c" using element_symbol_chars by blast
  then show ?thesis by (simp add: ps sum_formula_of_Cons)
qed

lemma isalpha_symbols:
  assumes "list_all element_symbol qs" "qs \<noteq> []"
  shows "isalpha (concat qs)"
proof -
  from assms obtain q qs' where qs: "qs = q # qs'" by (cases qs) auto
  with assms(1) have "element_symbol q" by simp
  then have "q \<noteq> []" using element_symbol_chars by blast
  then have "concat qs \<noteq> []" by (simp add: qs)
  with concat_symbols_letters [OF assms(1)] show ?thesis by (simp add: isalpha_def)
qed

lemma not_isalpha_digits:
  assumes "ds \<noteq> []" "list_all is_digit ds"
  shows "\<not> isalpha ds"
proof -
  from assms obtain c cs where "ds = c # cs" "is_digit c" by (cases ds) auto
  then show ?thesis
    using digit_not_upper [of c] lower_not_digit [of c] by (auto simp: isalpha_def)
qed

lemma fold_butlast_last:
  "qs \<noteq> [] \<Longrightarrow> f (last qs) (fold f (butlast qs) e) = fold f qs e"
proof -
  assume "qs \<noteq> []"
  then have "fold f qs e = fold f (butlast qs @ [last qs]) e" by simp
  then show ?thesis by (simp del: append_butlast_last_id)
qed

lemma count_tokens_wellformed:
  "list_all element_symbol qs \<Longrightarrow> list_all formula_pair ps \<Longrightarrow> qs \<noteq> [] \<or> ps \<noteq> [] \<Longrightarrow>
   count_tokens (split_sum_formula (concat qs @ sum_formula_of ps)) (prev, ec)
   = Inr (fold (\<lambda>(s, ds) d. dict_set d s (count_of ds)) ps
            (fold (\<lambda>q d. dict_set d q 1) qs ec))"
proof (induction ps arbitrary: qs prev ec)
  case Nil
  then have qs: "qs \<noteq> []" by simp
  have alpha: "isalpha (concat qs)" by (rule isalpha_symbols [OF Nil(1) qs])
  then have ne: "concat qs \<noteq> []" by (simp add: isalpha_def)
  have "split_sum_formula (concat qs) = [concat qs]"
    by (rule split_sum_formula_no_digit [OF ne concat_symbols_no_digit [OF Nil(1)]])
  then show ?case
    using fold_butlast_last [OF qs, of "\<lambda>q d. dict_set d q 1" ec]
    by (simp add: sum_formula_of_Nil count_tokens_def scan_symbols [OF Nil(1) qs] alpha)
next
  case (Cons p ps)
  obtain el ds where p: "p = (el, ds)" by (cases p)
  from Cons.prems(2) have pair: "formula_pair (el, ds)" and ps: "list_all formula_pair ps"
    by (simp_all add: p)
  from pair have el: "element_symbol el" and ds: "list_all is_digit ds"
    by (simp_all add: formula_pair_def)
  from Cons.prems(1) el have qs': "list_all element_symbol (qs @ [el])" by simp
  show ?case
  proof (cases "ds = []")
    case True
    have "concat qs @ sum_formula_of (p # ps) = concat (qs @ [el]) @ sum_formula_of ps"
      by (simp add: p True sum_formula_of_Cons)
    then show ?thesis
      using Cons.IH [OF qs' ps, of prev ec] by (simp add: p True count_of_def)
  next
    case False
    let ?a = "concat (qs @ [el])"
    let ?f = "\<lambda>q d. dict_set d q (1::int)"
    let ?st = "(el, dict_set (fold ?f qs ec) el (int (decimal ds)))"
    have str: "concat qs @ sum_formula_of (p # ps) = ?a @ ds @ sum_formula_of ps"
      by (simp add: p sum_formula_of_Cons)
    have nodigit: "\<forall>c \<in> set ?a. \<not> is_digit c" by (rule concat_symbols_no_digit [OF qs'])
    have rest: "sum_formula_of ps = [] \<or> \<not> is_digit (hd (sum_formula_of ps))"
      using sum_formula_of_head [OF ps] upper_not_digit
      by (cases "ps = []") (auto simp: sum_formula_of_Nil)
    have split: "split_sum_formula (?a @ ds @ sum_formula_of ps)
        = ?a # ds # split_sum_formula (sum_formula_of ps)"
      by (rule split_sum_formula_group [OF nodigit False ds rest])
    have scan1: "scan_substring ?a (prev, ec) = Inr (el, fold ?f qs ec)"
      using scan_symbols [OF qs', of prev ec] by simp
    have scan2: "scan_substring ds (el, fold ?f qs ec) = Inr ?st"
      by (rule scan_digits [OF False ds])
    have toks: "split_sum_formula (concat qs @ sum_formula_of (p # ps))
        = ?a # ds # split_sum_formula (sum_formula_of ps)"
      unfolding str by (rule split)
    have rhs: "fold (\<lambda>(s, ds) d. dict_set d s (count_of ds)) (p # ps) (fold ?f qs ec)
        = fold (\<lambda>(s, ds) d. dict_set d s (count_of ds)) ps (snd ?st)"
      by (simp add: p count_of_def False)
    show ?thesis
    proof (cases "ps = []")
      case True
      have "count_tokens [?a, ds] (prev, ec) = Inr (snd ?st)"
        unfolding count_tokens_def
        by (simp add: scan1 scan2 not_isalpha_digits [OF False ds]
              del: concat_append fold_append)
      moreover have "split_sum_formula (sum_formula_of ps) = []"
        by (simp add: True sum_formula_of_Nil split_sum_formula_empty)
      moreover have "fold (\<lambda>(s, ds) d. dict_set d s (count_of ds)) ps (snd ?st) = snd ?st"
        by (simp add: True)
      ultimately show ?thesis by (simp only: toks rhs)
    next
      case ne: False
      from sum_formula_of_head [OF ps ne]
      have "split_sum_formula (sum_formula_of ps) \<noteq> []"
        by (intro split_sum_formula_nonempty) simp
      then have "count_tokens (?a # ds # split_sum_formula (sum_formula_of ps)) (prev, ec)
          = count_tokens (split_sum_formula (sum_formula_of ps)) ?st"
        by (simp add: count_tokens_Cons scan1 scan2 del: concat_append fold_append)
      also have "\<dots> = Inr (fold (\<lambda>(s, ds) d. dict_set d s (count_of ds)) ps (snd ?st))"
        using Cons.IH [of "[]", OF _ ps, of el "snd ?st"] ne by simp
      finally show ?thesis by (simp only: toks rhs)
    qed
  qed
qed

lemma element_count_wellformed:
  assumes "list_all formula_pair ps" "ps \<noteq> []"
  shows "element_count_from_sum_formula (sum_formula_of ps)
       = Inr (fold (\<lambda>(s, ds) d. dict_set d s (count_of ds)) ps [])"
  using count_tokens_wellformed [of "[]" ps "[]" "[]"] assms
  by (simp add: element_count_from_sum_formula_def)

section \<open>Invariants of the tokenizer\<close>

lemma fold_err_invariant:
  assumes "\<And>x s s'. P s \<Longrightarrow> f x s = Inr s' \<Longrightarrow> P s'"
  shows "P s \<Longrightarrow> fold_err f xs s = Inr s' \<Longrightarrow> P s'"
proof (induction xs arbitrary: s)
  case Nil
  then show ?case by simp
next
  case (Cons x xs)
  then show ?case using assms by (auto split: sum.splits)
qed

lemma distinct_fold_ones:
  "distinct (map fst d) \<Longrightarrow> distinct (map fst (fold (\<lambda>element d. dict_set d element v) xs d))"
  by (induction xs arbitrary: d) (simp_all add: distinct_dict_set)

lemma scan_substring_distinct:
  assumes "distinct (map fst (snd st))" "scan_substring t st = Inr st'"
  shows "distinct (map fst (snd st'))"
proof -
  obtain prev ec where st: "st = (prev, ec)" by (cases st)
  from assms show ?thesis
    by (auto simp: st scan_substring_def Let_def distinct_dict_set distinct_fold_ones
          split: if_splits option.splits)
qed

lemma element_count_distinct:
  assumes "element_count_from_sum_formula s = Inr ec"
  shows "distinct (map fst ec)"
proof -
  from assms obtain prev ec' where
    loop: "fold_err scan_substring (split_sum_formula s) ([], []) = Inr (prev, ec')"
    and ec: "ec = dict_set ec' prev 1 \<or> ec = ec'"
    by (auto simp: element_count_from_sum_formula_def count_tokens_def
          split: sum.splits if_splits)
  have "distinct (map fst (snd (prev, ec')))"
    by (rule fold_err_invariant [where P = "\<lambda>st. distinct (map fst (snd st))", OF _ _ loop])
       (simp_all add: scan_substring_distinct)
  with ec show ?thesis by (auto simp: distinct_dict_set)
qed

lemma graph_nodes_cong:
  assumes d1: "distinct (map fst ec1)" and d2: "distinct (map fst ec2)"
    and eq: "map_of ec1 = map_of ec2"
  shows "graph_nodes_from_element_count syms ec1 = graph_nodes_from_element_count syms ec2"
proof -
  let ?A = "atom_number_dict syms"
  from d1 d2 eq have set: "set ec1 = set ec2" by (simp add: map_of_inject_set)
  from d1 d2 have "distinct ec1" "distinct ec2" by (simp_all add: distinct_map)
  with set have mset: "mset ec1 = mset ec2" by (simp add: set_eq_iff_mset_eq_distinct)
  show ?thesis
  proof (cases "\<forall>k \<in> fst ` set ec1. map_of ?A k \<noteq> None")
    case True
    with set have known2: "\<forall>k \<in> fst ` set ec2. map_of ?A k \<noteq> None" by simp
    have "mset (map (\<lambda>(k, v). (the (map_of ?A k), v)) ec1)
        = mset (map (\<lambda>(k, v). (the (map_of ?A k), v)) ec2)"
      using mset by (metis mset_map)
    then have "sort (map (\<lambda>(k, v). (the (map_of ?A k), v)) ec1)
        = sort (map (\<lambda>(k, v). (the (map_of ?A k), v)) ec2)"
      by (rule sort_cong_mset)
    then show ?thesis
      by (simp only: graph_nodes_known [OF d1 True] graph_nodes_known [OF d2 known2])
  next
    case False
    then have 1: "\<exists>k \<in> fst ` set ec1. map_of ?A k = None" by simp
    with set have 2: "\<exists>k \<in> fst ` set ec2. map_of ?A k = None" by simp
    show ?thesis by (simp only: graph_nodes_unknown [OF 1] graph_nodes_unknown [OF 2])
  qed
qed

lemma map_of_fold_counts_other:
  "k \<notin> fst ` set ps \<Longrightarrow>
   map_of (fold (\<lambda>(s, ds) d. dict_set d s (count_of ds)) ps d) k = map_of d k"
  by (induction ps arbitrary: d) (auto simp: map_of_dict_set)

lemma keys_fold_counts:
  "fst ` set (fold (\<lambda>(s, ds) d. dict_set d s (count_of ds)) ps d) = fst ` set ps \<union> fst ` set d"
proof (induction ps arbitrary: d)
  case Nil
  then show ?case by simp
next
  case (Cons p ps)
  obtain s ds where p: "p = (s, ds)" by (cases p)
  have "fst ` set (fold (\<lambda>(s, ds) d. dict_set d s (count_of ds)) (p # ps) d)
      = fst ` set ps \<union> fst ` set (dict_set d (fst p) (count_of (snd p)))"
    by (simp add: Cons.IH p)
  also have "\<dots> = fst ` set ps \<union> insert (fst p) (fst ` set d)"
    by (simp only: keys_dict_set)
  also have "\<dots> = fst ` set (p # ps) \<union> fst ` set d" by auto
  finally show ?case .
qed

section \<open>Properties of the tokenizer and of the node pipeline\<close>

text \<open>
  C4. Two sum formulas that parse to the same element counts (equal as dictionaries,
  whatever the order of their keys) give the same result of
  \<open>graph_nodes_from_element_count\<close>: the node numbering does not depend on the order
  of the elements in the formula.
\<close>

theorem same_counts_same_nodes:
  assumes "element_count_from_sum_formula s1 = Inr ec1"
    and "element_count_from_sum_formula s2 = Inr ec2"
    and "map_of ec1 = map_of ec2"
  shows "graph_nodes_from_element_count syms ec1 = graph_nodes_from_element_count syms ec2"
  using assms by (intro graph_nodes_cong element_count_distinct)

theorem same_counts_same_nodes_witness:
  "element_count_from_sum_formula ''C2H4O'' = Inr [(''C'', 2), (''H'', 4), (''O'', 1)]
   \<and> element_count_from_sum_formula ''H4OC2'' = Inr [(''H'', 4), (''O'', 1), (''C'', 2)]
   \<and> map_of [(''C'', 2 :: int), (''H'', 4), (''O'', 1)]
       = map_of [(''H'', 4), (''O'', 1), (''C'', 2)]
   \<and> graph_nodes_from_element_count [''H'', ''He'', ''Li'', ''Be'', ''B'', ''C'', ''N'', ''O'']
         [(''C'', 2), (''H'', 4), (''O'', 1)]
     = graph_nodes_from_element_count [''H'', ''He'', ''Li'', ''Be'', ''B'', ''C'', ''N'', ''O'']
         [(''H'', 4), (''O'', 1), (''C'', 2)]"
proof -
  have 1: "element_count_from_sum_formula ''C2H4O'' = Inr [(''C'', 2), (''H'', 4), (''O'', 1)]"
    by code_simp
  have 2: "element_count_from_sum_formula ''H4OC2'' = Inr [(''H'', 4), (''O'', 1), (''C'', 2)]"
    by code_simp
  have 3: "map_of [(''C'', 2 :: int), (''H'', 4), (''O'', 1)]
       = map_of [(''H'', 4), (''O'', 1), (''C'', 2)]"
    by (rule ext) simp
  from 1 2 3 same_counts_same_nodes [OF 1 2 3] show ?thesis by simp
qed

text \<open>
  C7. When a symbol of the element counts is not in the lookup table,
  \<open>graph_nodes_from_element_count\<close> raises \<open>KeyError\<close>. The tokenizer does not look
  symbols up: on every well-formed formula, whatever its symbols,
  \<open>element_count_from_sum_formula\<close> returns a dictionary, whose keys are the symbols of
  the formula.
\<close>

theorem unknown_symbol_detected_by_node_labeler:
  "(\<forall>ec. (\<exists>k \<in> fst ` set ec. dict_get (atom_number_dict syms) k = Inl KeyError)
       \<longrightarrow> graph_nodes_from_element_count syms ec = Inl KeyError)
   \<and> (\<forall>ps. list_all formula_pair ps \<and> ps \<noteq> []
       \<longrightarrow> (\<exists>ec. element_count_from_sum_formula (sum_formula_of ps) = Inr ec
              \<and> fst ` set ec = fst ` set ps))"
proof (intro conjI allI impI)
  fix ec :: "(string \<times> int) list"
  assume "\<exists>k \<in> fst ` set ec. dict_get (atom_number_dict syms) k = Inl KeyError"
  then have "\<exists>k \<in> fst ` set ec. map_of (atom_number_dict syms) k = None"
    by (simp add: dict_get_KeyError)
  then show "graph_nodes_from_element_count syms ec = Inl KeyError"
    by (rule graph_nodes_unknown)
next
  fix ps :: "(string \<times> string) list"
  assume "list_all formula_pair ps \<and> ps \<noteq> []"
  then show "\<exists>ec. element_count_from_sum_formula (sum_formula_of ps) = Inr ec
              \<and> fst ` set ec = fst ` set ps"
    by (simp add: element_count_wellformed keys_fold_counts)
qed

theorem unknown_symbol_detected_by_node_labeler_witness:
  "dict_get (atom_number_dict [''H'', ''He'']) ''Xx'' = Inl KeyError
   \<and> graph_nodes_from_element_count [''H'', ''He''] [(''H'', 2), (''Xx'', 1)] = Inl KeyError
   \<and> formula_pair (''Xx'', ''2'')
   \<and> sum_formula_of [(''Xx'', ''2'')] = ''Xx2''
   \<and> (\<exists>ec. element_count_from_sum_formula ''Xx2'' = Inr ec \<and> fst ` set ec = {''Xx''})"
proof -
  have 1: "dict_get (atom_number_dict [''H'', ''He'']) ''Xx'' = Inl KeyError"
    by (simp add: atom_number_dict_def dict_get_def enumerate_eq_zip upt_rec)
  then have 2: "\<exists>k \<in> fst ` set [(''H'', 2 :: int), (''Xx'', 1)].
      dict_get (atom_number_dict [''H'', ''He'']) k = Inl KeyError"
    by simp
  have 3: "formula_pair (''Xx'', ''2'')"
    by (simp add: formula_pair_def element_symbol_def is_upper_def is_lower_def is_digit_def)
  have 4: "sum_formula_of [(''Xx'', ''2'')] = ''Xx2''"
    by (simp add: sum_formula_of_def)
  from 3 have 5: "list_all formula_pair [(''Xx'', ''2'')] \<and> [(''Xx'', ''2'')] \<noteq> []"
    by simp
  note inst = unknown_symbol_detected_by_node_labeler [of "[''H'', ''He'']"]
  from inst 2 have a: "graph_nodes_from_element_count [''H'', ''He''] [(''H'', 2), (''Xx'', 1)]
      = Inl KeyError"
    by blast
  from inst 5 have "\<exists>ec. element_count_from_sum_formula (sum_formula_of [(''Xx'', ''2'')]) = Inr ec
      \<and> fst ` set ec = fst ` set [(''Xx'', ''2'')]"
    by blast
  then have b: "\<exists>ec. element_count_from_sum_formula ''Xx2'' = Inr ec \<and> fst ` set ec = {''Xx''}"
    by (simp add: 4)
  from 1 a 3 4 b show ?thesis by blast
qed

text \<open>
  C9. When a symbol occurs in more than one symbol/count pair of a well-formed
  formula, \<open>element_count_from_sum_formula\<close> returns for it the count of its last
  occurrence: a later occurrence overwrites the earlier ones, nothing is summed and
  nothing is rejected.
\<close>

theorem last_occurrence_wins:
  assumes "list_all formula_pair (ps1 @ (el, ds) # ps2)"
    and "el \<notin> fst ` set ps2"
  shows "\<exists>ec. element_count_from_sum_formula (sum_formula_of (ps1 @ (el, ds) # ps2)) = Inr ec
           \<and> dict_get ec el = Inr (count_of ds)"
proof -
  let ?upd = "\<lambda>(s, ds) d. dict_set d s (count_of ds)"
  have "map_of (fold ?upd (ps1 @ (el, ds) # ps2) []) el
      = map_of (dict_set (fold ?upd ps1 []) el (count_of ds)) el"
    using map_of_fold_counts_other [OF assms(2)] by simp
  also have "\<dots> = Some (count_of ds)" by (simp add: map_of_dict_set)
  finally have "dict_get (fold ?upd (ps1 @ (el, ds) # ps2) []) el = Inr (count_of ds)"
    by (simp add: dict_get_Inr)
  then show ?thesis
    using element_count_wellformed [OF assms(1)] by simp
qed

theorem last_occurrence_wins_witness:
  "formula_pair (''H'', ''2'') \<and> formula_pair (''O'', '''') \<and> formula_pair (''H'', '''')
   \<and> ''H'' \<notin> fst ` set ([] :: (string \<times> string) list)
   \<and> sum_formula_of ([(''H'', ''2''), (''O'', '''')] @ (''H'', '''') # []) = ''H2OH''
   \<and> (\<exists>ec. element_count_from_sum_formula ''H2OH'' = Inr ec \<and> dict_get ec ''H'' = Inr 1)"
proof -
  have 1: "formula_pair (''H'', ''2'')" "formula_pair (''O'', '''')" "formula_pair (''H'', '''')"
    by (simp_all add: formula_pair_def element_symbol_def is_upper_def is_lower_def is_digit_def)
  then have 2: "list_all formula_pair ([(''H'', ''2''), (''O'', '''')] @ (''H'', '''') # [])"
    by simp
  have 3: "''H'' \<notin> fst ` set ([] :: (string \<times> string) list)" by simp
  have 4: "sum_formula_of ([(''H'', ''2''), (''O'', '''')] @ (''H'', '''') # []) = ''H2OH''"
    by (simp add: sum_formula_of_def)
  have "\<exists>ec. element_count_from_sum_formula ''H2OH'' = Inr ec \<and> dict_get ec ''H'' = Inr 1"
    using last_occurrence_wins [OF 2 3] unfolding 4 by (simp add: count_of_def)
  with 1 3 4 show ?thesis by blast
qed

section \<open>The node pipeline on a concrete formula\<close>

lemma str_split_none: "sep \<notin> set a \<Longrightarrow> str_split sep a = [a]"
proof -
  assume "sep \<notin> set a"
  then have "dropWhile (\<lambda>c. c \<noteq> sep) a = []" by (auto simp: dropWhile_eq_Nil_conv)
  then show ?thesis by (subst str_split.simps) (simp only: list.case)
qed

lemma str_split_first:
  "sep \<notin> set a \<Longrightarrow> str_split sep (a @ sep # b) = a # str_split sep b"
proof -
  assume "sep \<notin> set a"
  then have a: "\<forall>x \<in> set a. x \<noteq> sep" by auto
  then have "dropWhile (\<lambda>c. c \<noteq> sep) (a @ sep # b) = sep # b"
    and "takeWhile (\<lambda>c. c \<noteq> sep) (a @ sep # b) = a"
    by (simp_all add: dropWhile_append2 takeWhile_append2)
  then show ?thesis by (subst str_split.simps) (simp only: list.case)
qed

lemma str_split_head:
  "\<exists>rest. str_split sep t = takeWhile (\<lambda>c. c \<noteq> sep) t # rest"
proof (cases "dropWhile (\<lambda>c. c \<noteq> sep) t")
  case Nil
  then have "takeWhile (\<lambda>c. c \<noteq> sep) t = t"
    by (metis append_Nil2 takeWhile_dropWhile_id)
  with Nil show ?thesis by (subst str_split.simps) (simp only: list.case, blast)
next
  case (Cons x xs)
  then show ?thesis by (subst str_split.simps) (simp only: list.case, blast)
qed

text \<open>
  C2. For every TUCAN string whose text before the first \<open>/\<close> is \<open>C2H4O\<close>, with a
  lookup table in which H, C and O have the atomic numbers 1, 6 and 8: the element
  counts are C:2, H:4, O:1, \<open>tucan_string_to_graph_nodes\<close> returns the nodes
  1:H, 2:H, 3:H, 4:H, 5:C, 6:C, 7:O, and with \<open>use_element_symbols = False\<close> the nodes
  1:1, 2:1, 3:1, 4:1, 5:6, 6:6, 7:8.
\<close>

theorem c2h4o_nodes:
  assumes H: "dict_get (atom_number_dict syms) ''H'' = Inr 1"
    and C: "dict_get (atom_number_dict syms) ''C'' = Inr 6"
    and O: "dict_get (atom_number_dict syms) ''O'' = Inr 8"
    and t: "takeWhile (\<lambda>c. c \<noteq> CHR ''/'') t = ''C2H4O''"
  shows "element_count_from_sum_formula ''C2H4O'' = Inr [(''C'', 2), (''H'', 4), (''O'', 1)]
    \<and> tucan_string_to_graph_nodes syms t True =
        Inr [(1, Symbol ''H''), (2, Symbol ''H''), (3, Symbol ''H''), (4, Symbol ''H''),
             (5, Symbol ''C''), (6, Symbol ''C''), (7, Symbol ''O'')]
    \<and> tucan_string_to_graph_nodes syms t False =
        Inr [(1, AtomicNumber 1), (2, AtomicNumber 1), (3, AtomicNumber 1),
             (4, AtomicNumber 1), (5, AtomicNumber 6), (6, AtomicNumber 6),
             (7, AtomicNumber 8)]"
proof -
  let ?A = "atom_number_dict syms"
  let ?N = "number_atom_dict syms"
  let ?ec = "[(''C'', 2 :: int), (''H'', 4), (''O'', 1)]"
  have ec: "element_count_from_sum_formula ''C2H4O'' = Inr ?ec"
    by code_simp
  from H C O have A: "map_of ?A ''H'' = Some 1" "map_of ?A ''C'' = Some 6"
    "map_of ?A ''O'' = Some 8"
    by (simp_all add: dict_get_Inr)
  then have N: "map_of ?N 1 = Some ''H''" "map_of ?N 6 = Some ''C''" "map_of ?N 8 = Some ''O''"
    by (simp_all add: number_of_atom_number)
  have d: "distinct (map fst ?ec)" by simp
  have known: "\<forall>k \<in> fst ` set ?ec. map_of ?A k \<noteq> None" by (simp add: A)
  have srt: "sort [(6 :: nat, 2 :: int), (1, 4), (8, 1)] = [(1, 4), (6, 2), (8, 1)]"
    by simp
  have nodes: "graph_nodes_from_element_count syms ?ec =
      Inr [(1, ''H''), (2, ''H''), (3, ''H''), (4, ''H''), (5, ''C''), (6, ''C''), (7, ''O'')]"
  proof -
    have rep: "replicate 4 x = [x, x, x, x]" "replicate 2 x = [x, x]" for x :: string
      by (simp_all add: eval_nat_numeral)
    have enum: "enumerate (Suc 0) [''H'', ''H'', ''H'', ''H'', ''C'', ''C'', ''O'']
        = [(Suc 0, ''H''), (2, ''H''), (3, ''H''), (4, ''H''), (5, ''C''), (6, ''C''), (7, ''O'')]"
      by (simp add: enumerate_eq_zip upt_rec)
    from N(1) have N1: "map_of ?N (Suc 0) = Some ''H''" by simp
    show ?thesis
      unfolding graph_nodes_known [OF d known]
      by (simp add: A N N1 srt rep enum)
  qed
  have conv: "convert_graph_nodes_element_to_atomic_number syms
        [(1, ''H''), (2, ''H''), (3, ''H''), (4, ''H''), (5, ''C''), (6, ''C''), (7, ''O'')]
      = Inr [(1, 1), (2, 1), (3, 1), (4, 1), (5, 6), (6, 6), (7, 8)]"
    by (simp add: convert_graph_nodes_element_to_atomic_number_def H C O)
  from str_split_head [of "CHR ''/''" t] t
  obtain rest where split: "str_split CHR ''/'' t = ''C2H4O'' # rest" by auto
  have sym: "tucan_string_to_graph_nodes syms t True =
      Inr (map (\<lambda>(i, s). (i, Symbol s))
        [(1, ''H''), (2, ''H''), (3, ''H''), (4, ''H''), (5, ''C''), (6, ''C''), (7, ''O'')])"
    by (simp only: tucan_string_to_graph_nodes_def split list.case ec sum.case nodes
          simp_thms if_False)
  have num: "tucan_string_to_graph_nodes syms t False =
      Inr (map (\<lambda>(i, n). (i, AtomicNumber n))
        [(1, 1), (2, 1), (3, 1), (4, 1), (5, 6), (6, 6), (7, 8)])"
    by (simp only: tucan_string_to_graph_nodes_def split list.case ec sum.case nodes conv
          simp_thms if_True)
  from ec sym num show ?thesis by simp
qed

theorem c2h4o_nodes_witness:
  "dict_get (atom_number_dict [''H'', ''He'', ''Li'', ''Be'', ''B'', ''C'', ''N'', ''O'']) ''H'' = Inr 1
   \<and> dict_get (atom_number_dict [''H'', ''He'', ''Li'', ''Be'', ''B'', ''C'', ''N'', ''O'']) ''C'' = Inr 6
   \<and> dict_get (atom_number_dict [''H'', ''He'', ''Li'', ''Be'', ''B'', ''C'', ''N'', ''O'']) ''O'' = Inr 8
   \<and> takeWhile (\<lambda>c. c \<noteq> CHR ''/'') ''C2H4O/(1-5)(2-5)(3-6)(4-6)(5-6)(6-7)'' = ''C2H4O''
   \<and> tucan_string_to_graph_nodes [''H'', ''He'', ''Li'', ''Be'', ''B'', ''C'', ''N'', ''O'']
        ''C2H4O/(1-5)(2-5)(3-6)(4-6)(5-6)(6-7)'' True =
        Inr [(1, Symbol ''H''), (2, Symbol ''H''), (3, Symbol ''H''), (4, Symbol ''H''),
             (5, Symbol ''C''), (6, Symbol ''C''), (7, Symbol ''O'')]
   \<and> tucan_string_to_graph_nodes [''H'', ''He'', ''Li'', ''Be'', ''B'', ''C'', ''N'', ''O'']
        ''C2H4O/(1-5)(2-5)(3-6)(4-6)(5-6)(6-7)'' False =
        Inr [(1, AtomicNumber 1), (2, AtomicNumber 1), (3, AtomicNumber 1),
             (4, AtomicNumber 1), (5, AtomicNumber 6), (6, AtomicNumber 6),
             (7, AtomicNumber 8)]"
proof -
  have 1: "dict_get (atom_number_dict [''H'', ''He'', ''Li'', ''Be'', ''B'', ''C'', ''N'', ''O'']) ''H'' = Inr 1"
    and 2: "dict_get (atom_number_dict [''H'', ''He'', ''Li'', ''Be'', ''B'', ''C'', ''N'', ''O'']) ''C'' = Inr 6"
    and 3: "dict_get (atom_number_dict [''H'', ''He'', ''Li'', ''Be'', ''B'', ''C'', ''N'', ''O'']) ''O'' = Inr 8"
    by (simp_all add: atom_number_dict_def dict_get_def enumerate_eq_zip upt_rec)
  have 4: "takeWhile (\<lambda>c. c \<noteq> CHR ''/'') ''C2H4O/(1-5)(2-5)(3-6)(4-6)(5-6)(6-7)'' = ''C2H4O''"
    by simp
  from 1 2 3 4 c2h4o_nodes [OF 1 2 3 4] show ?thesis by blast
qed

section \<open>Formulas with a count that has no symbol\<close>

lemma int_literal_no_digit_head:
  "cs = [] \<or> \<not> is_digit (hd cs) \<Longrightarrow> int_literal cs = None"
  by (cases cs) (auto simp: int_literal_def)

lemma py_int_no_digit:
  assumes "\<forall>c \<in> set s. \<not> is_digit c"
  shows "py_int s = None"
proof -
  let ?t = "rev (dropWhile is_space (rev (dropWhile is_space s)))"
  have "c \<in> set s" if "c \<in> set ?t" for c
  proof -
    from that have "c \<in> set (dropWhile is_space (rev (dropWhile is_space s)))" by simp
    then have "c \<in> set (rev (dropWhile is_space s))" by (rule set_dropWhileD)
    then have "c \<in> set (dropWhile is_space s)" by simp
    then show ?thesis by (rule set_dropWhileD)
  qed
  with assms have nd: "\<forall>c \<in> set ?t. \<not> is_digit c" by blast
  show ?thesis
  proof (cases ?t)
    case Nil
    show ?thesis unfolding py_int_def Nil by simp
  next
    case (Cons c cs)
    from nd have "\<forall>x \<in> set (c # cs). \<not> is_digit x" unfolding Cons .
    then have "\<not> is_digit c" and "cs = [] \<or> \<not> is_digit (hd cs)"
      by (simp, cases cs) simp_all
    then have "int_literal cs = None" "int_literal (c # cs) = None"
      by (simp_all add: int_literal_no_digit_head)
    then show ?thesis unfolding py_int_def Cons by simp
  qed
qed

lemma scan_substring_only_ValueError:
  "scan_substring t st = Inl e \<Longrightarrow> e = ValueError"
  by (cases st) (auto simp: scan_substring_def Let_def split: if_splits option.splits)

lemma scan_substring_no_symbol:
  assumes "\<forall>c \<in> set t. \<not> is_digit c \<and> \<not> is_upper c"
  shows "scan_substring t st = Inl ValueError"
proof -
  from assms have "re_findall_capital t = []" by (intro findall_no_capital) simp
  moreover from assms have "py_int t = None" by (intro py_int_no_digit) simp
  ultimately show ?thesis by (cases st) (simp add: scan_substring_def)
qed

lemma fold_err_fails:
  assumes "\<And>x s e. f x s = Inl e \<Longrightarrow> e = E" and "\<And>s. f t s = Inl E"
  shows "fold_err f (pre @ t # post) s = Inl E"
proof (induction pre arbitrary: s)
  case Nil
  then show ?case by (simp add: assms(2))
next
  case (Cons x pre)
  then show ?case using assms(1) [of x s] by (cases "f x s") auto
qed

lemma re_split_after_digit:
  "p1 = [] \<or> is_digit (last p1) \<Longrightarrow> y = [] \<or> \<not> is_digit (hd y) \<Longrightarrow>
   \<exists>pre. re_split_digits (p1 @ y) = pre @ re_split_digits y"
proof (induction p1 rule: re_split_digits.induct)
  case (1 s)
  show ?case
  proof (cases "s = []")
    case True
    then show ?thesis by simp
  next
    case False
    with "1.prems"(1) have last: "is_digit (last s)" by simp
    let ?a = "takeWhile (\<lambda>c. \<not> is_digit c) s"
    let ?r = "dropWhile (\<lambda>c. \<not> is_digit c) s"
    let ?d = "takeWhile is_digit ?r"
    let ?r' = "dropWhile is_digit ?r"
    from last False have r: "?r \<noteq> []"
      by (auto simp: dropWhile_eq_Nil_conv)
    then have "is_digit (hd ?r)" using hd_dropWhile [of "\<lambda>c. \<not> is_digit c" s] by simp
    with r have d: "?d \<noteq> []" by (cases ?r) simp_all
    have dd: "list_all is_digit ?d" by (auto simp: list_all_iff dest: set_takeWhileD)
    have a: "\<forall>c \<in> set ?a. \<not> is_digit c" by (auto dest: set_takeWhileD)
    have s1: "?d @ ?r' = ?r" by simp
    have s2: "?a @ ?r = s" by simp
    have "?a @ ?d @ (?r' @ y) = (?a @ (?d @ ?r')) @ y" by (simp only: append_assoc)
    also have "\<dots> = s @ y" by (simp only: s1 s2)
    finally have s: "?a @ ?d @ (?r' @ y) = s @ y" .
    have tail: "is_digit (last ?r')" and rest: "\<not> is_digit (hd (?r' @ y))" if ne: "?r' \<noteq> []"
    proof -
      have "last (?d @ ?r') = last ?r'" using ne by (rule last_appendR)
      then have 1: "last ?r' = last ?r" by (simp only: s1)
      have "last (?a @ ?r) = last ?r" using r by (rule last_appendR)
      then have "last ?r = last s" by (simp only: s2)
      with 1 have "last ?r' = last s" by (rule trans)
      then show "is_digit (last ?r')" using last by (simp only:)
      have e: "hd (?r' @ y) = hd ?r'" using ne by (rule hd_append2)
      show "\<not> is_digit (hd (?r' @ y))" unfolding e using ne by (rule hd_dropWhile)
    qed
    have rest': "?r' @ y = [] \<or> \<not> is_digit (hd (?r' @ y))"
    proof (cases "?r' = []")
      case True
      show ?thesis unfolding True using "1.prems"(2) by (simp only: append_Nil)
    next
      case False
      then show ?thesis using rest by blast
    qed
    have ih: "\<exists>pre. re_split_digits (?r' @ y) = pre @ re_split_digits y"
    proof (cases "?r' = []")
      case True
      have "re_split_digits ([] @ y) = [] @ re_split_digits y" by simp
      then show ?thesis unfolding True by blast
    next
      case False
      then have "?r' = [] \<or> is_digit (last ?r')" using tail by blast
      then show ?thesis using "1.prems"(2) by (rule "1.IH" [OF r])
    qed
    then obtain pre where pre: "re_split_digits (?r' @ y) = pre @ re_split_digits y" by blast
    have "re_split_digits (?a @ ?d @ (?r' @ y)) = ?a # ?d # re_split_digits (?r' @ y)"
      by (rule re_split_group [OF a d dd rest'])
    then have "re_split_digits (?a @ ?d @ (?r' @ y)) = (?a # ?d # pre) @ re_split_digits y"
      by (simp only: pre append_Cons)
    then show ?thesis unfolding s by blast
  qed
qed

lemma re_split_hd: "\<exists>ts. re_split_digits s = takeWhile (\<lambda>c. \<not> is_digit c) s # ts"
proof (cases "dropWhile (\<lambda>c. \<not> is_digit c) s = []")
  case True
  then have tw: "takeWhile (\<lambda>c. \<not> is_digit c) s = s"
    by (metis append_Nil2 takeWhile_dropWhile_id)
  from True have rs: "re_split_digits s = [s]" by (subst re_split_digits.simps) simp
  show ?thesis unfolding tw rs by blast
next
  case False
  then show ?thesis by (subst re_split_digits.simps) (simp only: if_False, blast)
qed

lemma split_first_token:
  assumes "split_sum_formula s = t0 # ts"
  shows "\<forall>c \<in> set t0. \<not> is_digit c"
proof -
  obtain xs where xs: "re_split_digits s = takeWhile (\<lambda>c. \<not> is_digit c) s # xs"
    using re_split_hd by blast
  with assms have "t0 = takeWhile (\<lambda>c. \<not> is_digit c) s"
    by (cases "xs = []") (auto simp: split_sum_formula_def Let_def split: if_splits)
  then show ?thesis by (auto dest: set_takeWhileD)
qed

lemma pop_keeps_prefix:
  "\<exists>post. (if last (pre @ t # u # more) = [] then butlast (pre @ t # u # more)
            else pre @ t # u # more) = pre @ t # post"
  by (simp add: butlast_append)

lemma findall_parts_nonempty: "x \<in> set (re_findall_capital s) \<Longrightarrow> x \<noteq> []"
  by (induction s rule: re_findall_capital.induct) (auto split: if_splits)

lemma keys_fold_ones:
  "fst ` set (fold (\<lambda>element d. dict_set d element v) xs d) = set xs \<union> fst ` set d"
proof (induction xs arbitrary: d)
  case Nil
  then show ?case by simp
next
  case (Cons x xs)
  have "fst ` set (fold (\<lambda>element d. dict_set d element v) (x # xs) d)
      = set xs \<union> fst ` set (dict_set d x v)"
    by (simp add: Cons.IH)
  also have "\<dots> = set xs \<union> insert x (fst ` set d)" by (simp only: keys_dict_set)
  also have "\<dots> = set (x # xs) \<union> fst ` set d" by auto
  finally show ?case .
qed

lemma scan_substring_keys:
  assumes ok: "scan_substring t st = Inr st'"
    and keys: "[] \<notin> fst ` set (snd st)"
    and prev: "fst st \<noteq> [] \<or> (\<forall>c \<in> set t. \<not> is_digit c)"
  shows "fst st' \<noteq> [] \<and> [] \<notin> fst ` set (snd st')"
proof -
  obtain p ec where st: "st = (p, ec)" by (cases st)
  let ?fa = "re_findall_capital t"
  show ?thesis
  proof (cases "?fa = []")
    case True
    with ok obtain n where n: "py_int t = Some n" and st': "st' = (p, dict_set ec p n)"
      by (auto simp: st scan_substring_def split: option.splits)
    from n prev have "p \<noteq> []" using py_int_no_digit [of t] by (auto simp: st)
    with keys show ?thesis by (simp add: st st' keys_dict_set)
  next
    case False
    then have l: "last ?fa \<in> set ?fa" and h: "hd ?fa \<in> set ?fa" by simp_all
    have b: "set (butlast ?fa) \<subseteq> set ?fa" by (auto dest: in_set_butlastD)
    from ok False have "st' = (hd ?fa, ec) \<or>
        st' = (last ?fa, fold (\<lambda>element d. dict_set d element 1) (butlast ?fa) ec)"
      by (auto simp: st scan_substring_def Let_def split: if_splits)
    then show ?thesis
    proof
      assume "st' = (hd ?fa, ec)"
      with h keys show ?thesis using findall_parts_nonempty [of "hd ?fa" t] by (simp add: st)
    next
      assume st': "st' = (last ?fa, fold (\<lambda>element d. dict_set d element 1) (butlast ?fa) ec)"
      have "[] \<notin> set (butlast ?fa)" using b findall_parts_nonempty [of "[]" t] by blast
      with keys l show ?thesis
        using findall_parts_nonempty [of "last ?fa" t]
        by (simp add: st st' keys_fold_ones)
    qed
  qed
qed

lemma element_count_no_empty_key:
  assumes "element_count_from_sum_formula s = Inr ec"
  shows "[] \<notin> fst ` set ec"
proof -
  from assms obtain prev ec' where
    loop: "fold_err scan_substring (split_sum_formula s) ([], []) = Inr (prev, ec')"
    and ne: "split_sum_formula s \<noteq> []"
    and ec: "ec = dict_set ec' prev 1 \<or> ec = ec'"
    by (auto simp: element_count_from_sum_formula_def count_tokens_def
          split: sum.splits if_splits)
  from ne obtain t0 ts where toks: "split_sum_formula s = t0 # ts"
    by (cases "split_sum_formula s") auto
  from loop obtain st1 where first: "scan_substring t0 ([], []) = Inr st1"
    and rest: "fold_err scan_substring ts st1 = Inr (prev, ec')"
    by (auto simp: toks split: sum.splits)
  have inv: "fst st1 \<noteq> [] \<and> [] \<notin> fst ` set (snd st1)"
    using split_first_token [OF toks] by (intro scan_substring_keys [OF first]) simp_all
  have "fst (prev, ec') \<noteq> [] \<and> [] \<notin> fst ` set (snd (prev, ec'))"
  proof (rule fold_err_invariant
          [where P = "\<lambda>st. fst st \<noteq> [] \<and> [] \<notin> fst ` set (snd st)", OF _ inv rest])
    fix x and s s' :: "string \<times> (string, int) dict"
    assume "fst s \<noteq> [] \<and> [] \<notin> fst ` set (snd s)" and "scan_substring x s = Inr s'"
    then show "fst s' \<noteq> [] \<and> [] \<notin> fst ` set (snd s')"
      by (intro scan_substring_keys [of x s s']) simp_all
  qed
  then have "prev \<noteq> []" "[] \<notin> fst ` set ec'" by simp_all
  then have "[] \<notin> fst ` set (dict_set ec' prev 1)" by (simp only: keys_dict_set) blast
  with \<open>[] \<notin> fst ` set ec'\<close> ec show ?thesis by blast
qed

lemma count_without_symbol_fails:
  assumes p1: "p1 = [] \<or> (is_digit (last p1) \<and> p2 \<noteq> [])"
    and p2: "\<forall>c \<in> set p2. \<not> is_digit c \<and> \<not> is_upper c"
    and d: "is_digit d"
  shows "element_count_from_sum_formula (p1 @ p2 @ d # rest) = Inl ValueError"
proof -
  let ?y = "p2 @ d # rest"
  let ?dg = "takeWhile is_digit (d # rest)"
  let ?more = "re_split_digits (dropWhile is_digit (d # rest))"
  from p2 have nd: "\<forall>c \<in> set p2. \<not> is_digit c" by blast
  with d have "dropWhile (\<lambda>c. \<not> is_digit c) ?y = d # rest"
    and "takeWhile (\<lambda>c. \<not> is_digit c) ?y = p2"
    by (simp_all add: dropWhile_append2 takeWhile_append2)
  then have y: "re_split_digits ?y = p2 # ?dg # ?more"
    by (subst re_split_digits.simps) (simp only: list.simps if_False)
  have "\<exists>pre. re_split_digits (p1 @ ?y) = pre @ re_split_digits ?y"
  proof (cases "p1 = []")
    case True
    have "re_split_digits ([] @ ?y) = [] @ re_split_digits ?y" by simp
    then show ?thesis unfolding True by blast
  next
    case False
    with p1 have "is_digit (last p1)" and "p2 \<noteq> []" by simp_all
    with nd have "\<not> is_digit (hd ?y)" by (cases p2) simp_all
    then show ?thesis using \<open>is_digit (last p1)\<close> by (intro re_split_after_digit) simp_all
  qed
  then obtain pre where "re_split_digits (p1 @ ?y) = pre @ p2 # ?dg # ?more"
    unfolding y by blast
  moreover obtain u more where "?more = u # more"
    using re_split_nonempty [of "dropWhile is_digit (d # rest)"] by (cases ?more) auto
  ultimately have "re_split_digits (p1 @ ?y) = pre @ p2 # ?dg # u # more" by simp
  then obtain post where toks: "split_sum_formula (p1 @ ?y) = pre @ p2 # post"
    using pop_keeps_prefix [of pre p2 ?dg "u # more"]
    by (auto simp: split_sum_formula_def Let_def simp del: takeWhile.simps dropWhile.simps)
  have "fold_err scan_substring (pre @ p2 # post) ([], []) = Inl ValueError"
    by (rule fold_err_fails) (simp_all add: scan_substring_only_ValueError
          scan_substring_no_symbol [OF p2])
  then show ?thesis
    by (simp add: element_count_from_sum_formula_def count_tokens_def toks)
qed

text \<open>
  C8. A formula with a run of digits that no element symbol precedes (the text between
  the start of the formula, or the previous run of digits, and this run has no capital
  letter) makes \<open>element_count_from_sum_formula\<close> raise \<open>ValueError\<close>; and no
  dictionary that the function returns has the empty string as a key.
\<close>

theorem count_without_symbol_is_an_error:
  "(\<forall>p1 p2 d rest.
      (p1 = [] \<or> (is_digit (last p1) \<and> p2 \<noteq> []))
      \<and> (\<forall>c \<in> set p2. \<not> is_digit c \<and> \<not> is_upper c) \<and> is_digit d
      \<longrightarrow> element_count_from_sum_formula (p1 @ p2 @ d # rest) = Inl ValueError)
   \<and> (\<forall>s ec. element_count_from_sum_formula s = Inr ec \<longrightarrow> [] \<notin> fst ` set ec)"
  by (intro conjI allI impI count_without_symbol_fails element_count_no_empty_key) blast+

theorem count_without_symbol_is_an_error_witness:
  "is_digit CHR ''2''
   \<and> element_count_from_sum_formula ''2H'' = Inl ValueError
   \<and> is_digit (last ''H2'') \<and> \<not> is_digit CHR ''x'' \<and> \<not> is_upper CHR ''x''
   \<and> is_digit CHR ''3''
   \<and> element_count_from_sum_formula ''H2x3O'' = Inl ValueError
   \<and> element_count_from_sum_formula ''H2'' = Inr [(''H'', 2)]
   \<and> [] \<notin> fst ` set [(''H'', 2 :: int)]"
proof -
  note inst = count_without_symbol_is_an_error
  have d: "is_digit CHR ''2''" "is_digit (last ''H2'')" "\<not> is_digit CHR ''x''"
    "\<not> is_upper CHR ''x''" "is_digit CHR ''3''"
    by (simp_all add: is_digit_def is_upper_def)
  have "([] = [] \<or> (is_digit (last []) \<and> [] \<noteq> []))
      \<and> (\<forall>c \<in> set []. \<not> is_digit c \<and> \<not> is_upper c) \<and> is_digit CHR ''2''"
    using d by simp
  with inst have "element_count_from_sum_formula ([] @ [] @ CHR ''2'' # ''H'') = Inl ValueError"
    by blast
  then have 1: "element_count_from_sum_formula ''2H'' = Inl ValueError" by simp
  have "(''H2'' = [] \<or> (is_digit (last ''H2'') \<and> ''x'' \<noteq> []))
      \<and> (\<forall>c \<in> set ''x''. \<not> is_digit c \<and> \<not> is_upper c) \<and> is_digit CHR ''3''"
    using d by simp
  with inst have "element_count_from_sum_formula (''H2'' @ ''x'' @ CHR ''3'' # ''O'') = Inl ValueError"
    by blast
  then have 2: "element_count_from_sum_formula ''H2x3O'' = Inl ValueError" by simp
  have 3: "element_count_from_sum_formula ''H2'' = Inr [(''H'', 2)]" by code_simp
  with inst have 4: "[] \<notin> fst ` set [(''H'', 2 :: int)]" by blast
  from d 1 2 3 4 show ?thesis by blast
qed

section \<open>The edge extractor\<close>

lemma str_split_nonempty: "str_split sep s \<noteq> []"
  by (subst str_split.simps) (simp split: list.splits)

lemma str_split_after_sep:
  "x = [] \<or> last x = sep \<Longrightarrow> \<exists>P. \<forall>y. str_split sep (x @ y) = P @ str_split sep y"
proof (induction sep x rule: str_split.induct)
  case (1 sep s)
  show ?case
  proof (cases "s = []")
    case True
    have "\<forall>y. str_split sep ([] @ y) = [] @ str_split sep y" by simp
    then show ?thesis unfolding True by blast
  next
    case False
    with "1.prems" have last: "last s = sep" by simp
    let ?a = "takeWhile (\<lambda>c. c \<noteq> sep) s"
    let ?r = "dropWhile (\<lambda>c. c \<noteq> sep) s"
    from last False have "sep \<in> set s" using last_in_set by blast
    then have r: "?r \<noteq> []" by (auto simp: dropWhile_eq_Nil_conv)
    then have "hd ?r = sep" using hd_dropWhile [of "\<lambda>c. c \<noteq> sep" s] by simp
    with r obtain r' where r': "?r = sep # r'" by (cases ?r) auto
    have a: "sep \<notin> set ?a" by (auto dest: set_takeWhileD)
    have s: "?a @ sep # r' = s" unfolding r' [symmetric] by simp
    have tail: "r' = [] \<or> last r' = sep"
    proof (cases "r' = []")
      case True
      then show ?thesis by simp
    next
      case ne: False
      have "last (?a @ sep # r') = last r'" using ne by simp
      then show ?thesis using last by (simp only: s) simp
    qed
    from "1.IH" [OF r' tail] obtain P where P: "\<forall>y. str_split sep (r' @ y) = P @ str_split sep y"
      by blast
    have "str_split sep ((?a @ sep # r') @ y) = (?a # P) @ str_split sep y" for y
    proof -
      have "str_split sep (?a @ sep # (r' @ y)) = ?a # str_split sep (r' @ y)"
        by (rule str_split_first [OF a])
      then show ?thesis using P by simp
    qed
    then show ?thesis unfolding s by blast
  qed
qed

lemma map_err_ok:
  "\<forall>x \<in> set xs. f x = Inr (g x) \<Longrightarrow> map_err f xs = Inr (map g xs)"
  by (induction xs) simp_all

lemma map_err_fails:
  assumes "\<And>x e. f x = Inl e \<Longrightarrow> e = E" and "f t = Inl E"
  shows "map_err f (pre @ t # post) = Inl E"
proof (induction pre)
  case Nil
  then show ?case by (simp add: assms(2))
next
  case (Cons x pre)
  then show ?case using assms(1) [of x] by (cases "f x") auto
qed

lemma map_err_error:
  "map_err f xs = Inl e \<Longrightarrow> \<exists>x \<in> set xs. f x = Inl e"
  by (induction xs) (auto split: sum.splits)

lemma edges_section:
  assumes "CHR ''/'' \<notin> set form" "CHR ''/'' \<notin> set sec" "rest = [] \<or> hd rest = CHR ''/''"
  shows "tucan_string_to_graph_edges (form @ CHR ''/'' # sec @ rest) = edges_of_section sec"
proof -
  have "\<exists>more. str_split CHR ''/'' (sec @ rest) = sec # more"
  proof (cases rest)
    case Nil
    then show ?thesis using str_split_none [OF assms(2)] by simp
  next
    case (Cons c rest')
    with assms(3) have "rest = CHR ''/'' # rest'" by simp
    then show ?thesis using str_split_first [OF assms(2), of rest'] by simp
  qed
  then obtain more where "str_split CHR ''/'' (sec @ rest) = sec # more" by blast
  then have "str_split CHR ''/'' (form @ CHR ''/'' # sec @ rest) = form # sec # more"
    using str_split_first [OF assms(1), of "sec @ rest"] by simp
  then show ?thesis by (simp add: tucan_string_to_graph_edges_def)
qed

lemma digit_not_punct:
  "is_digit c \<Longrightarrow> c \<noteq> CHR '')'' \<and> c \<noteq> CHR ''/'' \<and> c \<noteq> CHR ''-'' \<and> c \<noteq> CHR ''(''"
  by (auto simp: is_digit_def)

lemma node_number_chars:
  "node_number a \<Longrightarrow> CHR '')'' \<notin> set a \<and> CHR ''/'' \<notin> set a \<and> CHR ''-'' \<notin> set a"
  using digit_not_punct by (auto simp: node_number_def list_all_iff)

lemma edge_section_of_Cons:
  "edge_section_of ((a, b) # es) = (CHR ''('' # a @ CHR ''-'' # b) @ CHR '')'' # edge_section_of es"
  by (simp add: edge_section_of_def)

lemma edge_section_no_slash:
  "list_all (\<lambda>(a, b). node_number a \<and> node_number b) es \<Longrightarrow> CHR ''/'' \<notin> set (edge_section_of es)"
proof (induction es)
  case Nil
  then show ?case by (simp add: edge_section_of_def)
next
  case (Cons e es)
  obtain a b where e: "e = (a, b)" by (cases e)
  with Cons.prems have "node_number a" "node_number b" by simp_all
  then have "CHR ''/'' \<notin> set a" "CHR ''/'' \<notin> set b" using node_number_chars by blast+
  with Cons show ?case by (simp add: e edge_section_of_Cons)
qed

lemma split_edge_section:
  "list_all (\<lambda>(a, b). node_number a \<and> node_number b) es \<Longrightarrow>
   str_split CHR '')'' (edge_section_of es) = map (\<lambda>(a, b). CHR ''('' # a @ CHR ''-'' # b) es @ [[]]"
proof (induction es)
  case Nil
  then show ?case by (simp add: edge_section_of_def str_split_none)
next
  case (Cons e es)
  obtain a b where e: "e = (a, b)" by (cases e)
  with Cons.prems have "node_number a" "node_number b" by simp_all
  then have "CHR '')'' \<notin> set a" "CHR '')'' \<notin> set b" using node_number_chars by blast+
  then have "CHR '')'' \<notin> set (CHR ''('' # a @ CHR ''-'' # b)" by simp
  from str_split_first [OF this, of "edge_section_of es"] Cons show ?case
    by (simp add: e edge_section_of_Cons del: append_Cons append_assoc)
qed

lemma parse_pair:
  assumes "node_number a" "node_number b"
  shows "map_err (\<lambda>node. case py_int node of None \<Rightarrow> Inl ValueError | Some n \<Rightarrow> Inr n)
           (str_split CHR ''-'' (a @ CHR ''-'' # b))
       = Inr [int (decimal a), int (decimal b)]"
proof -
  from assms have "CHR ''-'' \<notin> set a" "CHR ''-'' \<notin> set b" using node_number_chars by blast+
  then have "str_split CHR ''-'' (a @ CHR ''-'' # b) = [a, b]"
    by (simp add: str_split_first str_split_none)
  moreover from assms have "py_int a = Some (int (decimal a))" "py_int b = Some (int (decimal b))"
    by (simp_all add: node_number_def py_int_digits)
  ultimately show ?thesis by simp
qed

lemma edges_of_wellformed_section:
  assumes "list_all (\<lambda>(a, b). node_number a \<and> node_number b) es"
  shows "edges_of_section (edge_section_of es)
       = Inr (map (\<lambda>(a, b). [int (decimal a), int (decimal b)]) es)"
proof -
  let ?f = "\<lambda>edge. map_err (\<lambda>node. case py_int node of None \<Rightarrow> Inl ValueError | Some n \<Rightarrow> Inr n)
              (str_split CHR ''-'' edge)"
  have "edges_of_section (edge_section_of es) = map_err ?f (map (\<lambda>(a, b). a @ CHR ''-'' # b) es)"
    by (simp add: edges_of_section_def split_edge_section [OF assms] comp_def case_prod_unfold)
  also have "\<dots> = Inr (map (\<lambda>(a, b). [int (decimal a), int (decimal b)]) es)"
    using assms
  proof (induction es)
    case Nil
    then show ?case by simp
  next
    case (Cons e es)
    obtain a b where e: "e = (a, b)" by (cases e)
    with Cons.prems have "node_number a" "node_number b" by simp_all
    from parse_pair [OF this] Cons show ?case by (simp add: e)
  qed
  finally show ?thesis .
qed

text \<open>
  C6. For a well-formed input, whose edge section is written from pairs of node numbers
  as \<open>(a-b)\<close>, \<open>tucan_string_to_graph_edges\<close> returns the pairs in the order in which
  they stand in the string, each as it is written: first \<open>a\<close>, then \<open>b\<close>.
\<close>

theorem edges_in_written_order:
  assumes "CHR ''/'' \<notin> set form"
    and "list_all (\<lambda>(a, b). node_number a \<and> node_number b) es"
    and "rest = [] \<or> hd rest = CHR ''/''"
  shows "tucan_string_to_graph_edges (form @ CHR ''/'' # edge_section_of es @ rest)
       = Inr (map (\<lambda>(a, b). [int (decimal a), int (decimal b)]) es)"
  using edges_section [OF assms(1) edge_section_no_slash [OF assms(2)] assms(3)]
    edges_of_wellformed_section [OF assms(2)]
  by simp

theorem edges_in_written_order_witness:
  "CHR ''/'' \<notin> set ''C2H4O''
   \<and> node_number ''1'' \<and> node_number ''2'' \<and> node_number ''3'' \<and> node_number ''5''
   \<and> node_number ''6''
   \<and> ''C2H4O'' @ CHR ''/'' # edge_section_of [(''1'', ''5''), (''2'', ''5''), (''3'', ''6'')] @ []
       = ''C2H4O/(1-5)(2-5)(3-6)''
   \<and> tucan_string_to_graph_edges ''C2H4O/(1-5)(2-5)(3-6)'' = Inr [[1, 5], [2, 5], [3, 6]]"
proof -
  have 1: "CHR ''/'' \<notin> set ''C2H4O''" by simp
  have n: "node_number ''1''" "node_number ''2''" "node_number ''3''" "node_number ''5''"
    "node_number ''6''"
    by (simp_all add: node_number_def is_digit_def)
  then have 2: "list_all (\<lambda>(a, b). node_number a \<and> node_number b)
      [(''1'', ''5''), (''2'', ''5''), (''3'', ''6'')]"
    by simp
  have 3: "([] :: string) = [] \<or> hd [] = CHR ''/''" by simp
  have 4: "''C2H4O'' @ CHR ''/'' # edge_section_of [(''1'', ''5''), (''2'', ''5''), (''3'', ''6'')] @ []
       = ''C2H4O/(1-5)(2-5)(3-6)''"
    by (simp add: edge_section_of_def)
  have v: "decimal ''1'' = 1" "decimal ''2'' = 2" "decimal ''3'' = 3" "decimal ''5'' = 5"
    "decimal ''6'' = 6"
    by (simp_all add: decimal_def digit_val_def)
  have "tucan_string_to_graph_edges ''C2H4O/(1-5)(2-5)(3-6)'' = Inr [[1, 5], [2, 5], [3, 6]]"
    using edges_in_written_order [OF 1 2 3] unfolding 4 by (simp add: v)
  with 1 n 4 show ?thesis by blast
qed

lemma join_parts_chars:
  "list_all node_number ps \<Longrightarrow> CHR '')'' \<notin> set (join_parts ps) \<and> CHR ''/'' \<notin> set (join_parts ps)"
  by (induction ps rule: join_parts.induct) (auto dest: node_number_chars)

lemma split_join_parts:
  "ps \<noteq> [] \<Longrightarrow> list_all node_number ps \<Longrightarrow> str_split CHR ''-'' (join_parts ps) = ps"
proof (induction ps rule: join_parts.induct)
  case 1
  then show ?case by simp
next
  case (2 p)
  then have "CHR ''-'' \<notin> set p" using node_number_chars by simp
  then show ?case by (simp add: str_split_none)
next
  case (3 p q ps)
  then have "CHR ''-'' \<notin> set p" using node_number_chars by simp
  from str_split_first [OF this, of "join_parts (q # ps)"] 3 show ?case by simp
qed

lemma parse_tuple:
  assumes "ps \<noteq> []" "list_all node_number ps"
  shows "map_err (\<lambda>node. case py_int node of None \<Rightarrow> Inl ValueError | Some n \<Rightarrow> Inr n)
           (str_split CHR ''-'' (join_parts ps))
       = Inr (map (\<lambda>a. int (decimal a)) ps)"
proof -
  have "map_err (\<lambda>node. case py_int node of None \<Rightarrow> Inl ValueError | Some n \<Rightarrow> Inr n) ps
      = Inr (map (\<lambda>a. int (decimal a)) ps)"
    using assms(2)
    by (intro map_err_ok) (auto simp: list_all_iff node_number_def py_int_digits)
  then show ?thesis by (simp only: split_join_parts [OF assms])
qed

lemma tuple_section_of_Cons:
  "tuple_section_of (ps # pss) = (CHR ''('' # join_parts ps) @ CHR '')'' # tuple_section_of pss"
  by (simp add: tuple_section_of_def)

lemma tuple_section_no_slash:
  "list_all (\<lambda>ps. ps \<noteq> [] \<and> list_all node_number ps) pss \<Longrightarrow>
   CHR ''/'' \<notin> set (tuple_section_of pss)"
  by (induction pss) (auto simp: tuple_section_of_def dest: join_parts_chars)

lemma split_tuple_section:
  "list_all (\<lambda>ps. ps \<noteq> [] \<and> list_all node_number ps) pss \<Longrightarrow>
   str_split CHR '')'' (tuple_section_of pss) = map (\<lambda>ps. CHR ''('' # join_parts ps) pss @ [[]]"
proof (induction pss)
  case Nil
  then show ?case by (simp add: tuple_section_of_def str_split_none)
next
  case (Cons ps pss)
  then have "list_all node_number ps" by simp
  then have "CHR '')'' \<notin> set (CHR ''('' # join_parts ps)" using join_parts_chars by simp
  from str_split_first [OF this, of "tuple_section_of pss"] Cons show ?case
    by (simp add: tuple_section_of_Cons del: append_Cons append_assoc)
qed

lemma edges_of_tuple_section:
  assumes "list_all (\<lambda>ps. ps \<noteq> [] \<and> list_all node_number ps) pss"
  shows "edges_of_section (tuple_section_of pss) = Inr (map (map (\<lambda>a. int (decimal a))) pss)"
proof -
  let ?f = "\<lambda>edge. map_err (\<lambda>node. case py_int node of None \<Rightarrow> Inl ValueError | Some n \<Rightarrow> Inr n)
              (str_split CHR ''-'' edge)"
  have "edges_of_section (tuple_section_of pss) = map_err ?f (map join_parts pss)"
    by (simp add: edges_of_section_def split_tuple_section [OF assms] comp_def)
  also have "\<dots> = Inr (map (map (\<lambda>a. int (decimal a))) pss)"
    using assms
  proof (induction pss)
    case Nil
    then show ?case by simp
  next
    case (Cons ps pss)
    then have "ps \<noteq> []" "list_all node_number ps" by simp_all
    from parse_tuple [OF this] Cons show ?case by simp
  qed
  finally show ?thesis .
qed

lemma edge_section_as_tuples:
  "edge_section_of es = tuple_section_of (map (\<lambda>(a, b). [a, b]) es)"
  by (simp add: edge_section_of_def tuple_section_of_def comp_def case_prod_unfold)

lemma parse_parts_only_ValueError:
  "map_err (\<lambda>node. case py_int node of None \<Rightarrow> Inl ValueError | Some n \<Rightarrow> Inr n) xs = Inl e
   \<Longrightarrow> e = ValueError"
  by (auto dest!: map_err_error split: option.splits)

lemma parse_parts_fails:
  assumes "part \<in> set xs" "py_int part = None"
  shows "map_err (\<lambda>node. case py_int node of None \<Rightarrow> Inl ValueError | Some n \<Rightarrow> Inr n) xs
       = Inl ValueError"
proof -
  from assms(1) obtain pre post where xs: "xs = pre @ part # post"
    by (auto simp: in_set_conv_decomp)
  show ?thesis unfolding xs
    by (rule map_err_fails) (auto simp: assms(2) split: option.splits)
qed

lemma section_with_bad_segment:
  assumes pre: "pre = [] \<or> last pre = CHR '')''"
    and seg: "CHR '')'' \<notin> set seg"
    and part: "part \<in> set (str_split CHR ''-'' (drop 1 seg))" "py_int part = None"
  shows "edges_of_section (pre @ seg @ CHR '')'' # post) = Inl ValueError"
proof -
  from str_split_after_sep [OF pre] obtain P where
    "str_split CHR '')'' (pre @ seg @ CHR '')'' # post) = P @ str_split CHR '')'' (seg @ CHR '')'' # post)"
    by blast
  then have split: "str_split CHR '')'' (pre @ seg @ CHR '')'' # post)
      = P @ seg # str_split CHR '')'' post"
    by (simp add: str_split_first [OF seg])
  obtain x xs where "str_split CHR '')'' post = x # xs"
    using str_split_nonempty [of "CHR '')''" post] by (cases "str_split CHR '')'' post") auto
  then have "butlast (str_split CHR '')'' (pre @ seg @ CHR '')'' # post))
      = P @ seg # butlast (x # xs)"
    by (simp add: split butlast_append)
  then have "edges_of_section (pre @ seg @ CHR '')'' # post)
      = map_err (\<lambda>edge. map_err
            (\<lambda>node. case py_int node of None \<Rightarrow> Inl ValueError | Some n \<Rightarrow> Inr n)
            (str_split CHR ''-'' edge))
          (map (drop 1) P @ drop 1 seg # map (drop 1) (butlast (x # xs)))"
    by (simp add: edges_of_section_def)
  also have "\<dots> = Inl ValueError"
  proof (rule map_err_fails)
    fix x e
    assume "map_err (\<lambda>node. case py_int node of None \<Rightarrow> Inl ValueError | Some n \<Rightarrow> Inr n)
        (str_split CHR ''-'' x) = Inl e"
    then show "e = ValueError" by (rule parse_parts_only_ValueError)
  next
    show "map_err (\<lambda>node. case py_int node of None \<Rightarrow> Inl ValueError | Some n \<Rightarrow> Inr n)
        (str_split CHR ''-'' (drop 1 seg)) = Inl ValueError"
      by (rule parse_parts_fails [OF part])
  qed
  finally show ?thesis .
qed

text \<open>
  C3, as the code has it. When a segment of the edge section that ends with \<open>)\<close> has,
  after its first character, a part between \<open>-\<close> signs that is not an integer
  literal, \<open>tucan_string_to_graph_edges\<close> raises \<open>ValueError\<close>: such a segment is
  never skipped. A segment whose parts are all node numbers is not rejected, however
  many parts it has: it gives a tuple with one integer for each part.
\<close>

theorem malformed_edge_part_raises_ValueError:
  "(\<forall>form pre seg post rest part.
      CHR ''/'' \<notin> set form \<and> CHR ''/'' \<notin> set (pre @ seg @ CHR '')'' # post)
      \<and> (rest = [] \<or> hd rest = CHR ''/'')
      \<and> (pre = [] \<or> last pre = CHR '')'') \<and> CHR '')'' \<notin> set seg
      \<and> part \<in> set (str_split CHR ''-'' (drop 1 seg)) \<and> py_int part = None
      \<longrightarrow> tucan_string_to_graph_edges (form @ CHR ''/'' # (pre @ seg @ CHR '')'' # post) @ rest)
            = Inl ValueError)
   \<and> (\<forall>form pss rest.
      CHR ''/'' \<notin> set form \<and> list_all (\<lambda>ps. ps \<noteq> [] \<and> list_all node_number ps) pss
      \<and> (rest = [] \<or> hd rest = CHR ''/'')
      \<longrightarrow> tucan_string_to_graph_edges (form @ CHR ''/'' # tuple_section_of pss @ rest)
            = Inr (map (map (\<lambda>a. int (decimal a))) pss))"
proof (intro conjI allI impI)
  fix form pre seg post rest part
  assume a: "CHR ''/'' \<notin> set form \<and> CHR ''/'' \<notin> set (pre @ seg @ CHR '')'' # post)
      \<and> (rest = [] \<or> hd rest = CHR ''/'')
      \<and> (pre = [] \<or> last pre = CHR '')'') \<and> CHR '')'' \<notin> set seg
      \<and> part \<in> set (str_split CHR ''-'' (drop 1 seg)) \<and> py_int part = None"
  then have "tucan_string_to_graph_edges (form @ CHR ''/'' # (pre @ seg @ CHR '')'' # post) @ rest)
      = edges_of_section (pre @ seg @ CHR '')'' # post)"
    by (intro edges_section) blast+
  moreover from a have "edges_of_section (pre @ seg @ CHR '')'' # post) = Inl ValueError"
    by (intro section_with_bad_segment [where part = part]) blast+
  ultimately show "tucan_string_to_graph_edges
      (form @ CHR ''/'' # (pre @ seg @ CHR '')'' # post) @ rest) = Inl ValueError"
    by (rule trans)
next
  fix form pss rest
  assume a: "CHR ''/'' \<notin> set form \<and> list_all (\<lambda>ps. ps \<noteq> [] \<and> list_all node_number ps) pss
      \<and> (rest = [] \<or> hd rest = CHR ''/'')"
  then have pss: "list_all (\<lambda>ps. ps \<noteq> [] \<and> list_all node_number ps) pss" by blast
  from a have "tucan_string_to_graph_edges (form @ CHR ''/'' # tuple_section_of pss @ rest)
      = edges_of_section (tuple_section_of pss)"
    by (intro edges_section tuple_section_no_slash [OF pss]) blast+
  then show "tucan_string_to_graph_edges (form @ CHR ''/'' # tuple_section_of pss @ rest)
      = Inr (map (map (\<lambda>a. int (decimal a))) pss)"
    by (simp only: edges_of_tuple_section [OF pss])
qed

theorem malformed_edge_part_raises_ValueError_witness:
  "CHR ''/'' \<notin> set ''C''
   \<and> CHR ''/'' \<notin> set (''(1-5)'' @ ''(2-x'' @ CHR '')'' # ''(3-6)'')
   \<and> last ''(1-5)'' = CHR '')''
   \<and> CHR '')'' \<notin> set ''(2-x''
   \<and> ''x'' \<in> set (str_split CHR ''-'' (drop 1 ''(2-x''))
   \<and> py_int ''x'' = None
   \<and> tucan_string_to_graph_edges ''C/(1-5)(2-x)(3-6)'' = Inl ValueError
   \<and> node_number ''1'' \<and> node_number ''2'' \<and> node_number ''3'' \<and> node_number ''7''
   \<and> tuple_section_of [[''1'', ''2'', ''3''], [''7'']] = ''(1-2-3)(7)''
   \<and> tucan_string_to_graph_edges ''C/(1-2-3)(7)'' = Inr [[1, 2, 3], [7]]"
proof -
  note inst = malformed_edge_part_raises_ValueError
  have 1: "CHR ''/'' \<notin> set ''C''" by simp
  have 2: "CHR ''/'' \<notin> set (''(1-5)'' @ ''(2-x'' @ CHR '')'' # ''(3-6)'')" by simp
  have 3: "([] :: string) = [] \<or> hd [] = CHR ''/''" by simp
  have 4: "last ''(1-5)'' = CHR '')''" by simp
  then have p: "''(1-5)'' = [] \<or> last ''(1-5)'' = CHR '')''" by simp
  have 5: "CHR '')'' \<notin> set ''(2-x''" by simp
  have 6: "''x'' \<in> set (str_split CHR ''-'' (drop 1 ''(2-x''))" by code_simp
  have 7: "py_int ''x'' = None" by code_simp
  from inst 1 2 3 p 5 6 7
  have "tucan_string_to_graph_edges (''C'' @ CHR ''/'' # (''(1-5)'' @ ''(2-x'' @ CHR '')'' # ''(3-6)'') @ [])
      = Inl ValueError"
    by blast
  then have a: "tucan_string_to_graph_edges ''C/(1-5)(2-x)(3-6)'' = Inl ValueError" by simp
  have n: "node_number ''1''" "node_number ''2''" "node_number ''3''" "node_number ''7''"
    by (simp_all add: node_number_def is_digit_def)
  then have l: "list_all (\<lambda>ps. ps \<noteq> [] \<and> list_all node_number ps)
      [[''1'', ''2'', ''3''], [''7'']]"
    by simp
  have t: "tuple_section_of [[''1'', ''2'', ''3''], [''7'']] = ''(1-2-3)(7)''"
    by (simp add: tuple_section_of_def)
  have v: "decimal ''1'' = 1" "decimal ''2'' = 2" "decimal ''3'' = 3" "decimal ''7'' = 7"
    by (simp_all add: decimal_def digit_val_def)
  from inst 1 l 3
  have "tucan_string_to_graph_edges
        (''C'' @ CHR ''/'' # tuple_section_of [[''1'', ''2'', ''3''], [''7'']] @ [])
      = Inr (map (map (\<lambda>a. int (decimal a))) [[''1'', ''2'', ''3''], [''7'']])"
    by blast
  then have b: "tucan_string_to_graph_edges ''C/(1-2-3)(7)'' = Inr [[1, 2, 3], [7]]"
    unfolding t by (simp add: v)
  from 1 2 4 5 6 7 a n t b show ?thesis by blast
qed

theorem three_part_segment_counterexample:
  "tucan_string_to_graph_edges ''C/(1-2-3)'' = Inr [[1, 2, 3]]"
  by code_simp

text \<open>
  C10, as the code has it. What stands after the last \<open>)\<close> of the edge section is
  dropped without being read: the result, a list of edges or an error, is that of the
  edge section cut after its last \<open>)\<close>. An edge section without any \<open>)\<close>, the empty
  one too, gives the empty list of edges.
\<close>

theorem text_after_last_bracket_is_dropped:
  assumes "CHR ''/'' \<notin> set form"
    and "CHR ''/'' \<notin> set pre"
    and "CHR ''/'' \<notin> set junk"
    and "CHR '')'' \<notin> set junk"
    and "rest = [] \<or> hd rest = CHR ''/''"
  shows "tucan_string_to_graph_edges (form @ CHR ''/'' # junk @ rest) = Inr []
    \<and> tucan_string_to_graph_edges (form @ CHR ''/'' # (pre @ CHR '')'' # junk) @ rest)
      = tucan_string_to_graph_edges (form @ CHR ''/'' # (pre @ '')'') @ rest)"
proof
  have "edges_of_section junk = Inr []"
    by (simp add: edges_of_section_def str_split_none [OF assms(4)])
  then show "tucan_string_to_graph_edges (form @ CHR ''/'' # junk @ rest) = Inr []"
    using edges_section [OF assms(1,3,5)] by simp
next
  have "(pre @ '')'') = [] \<or> last (pre @ '')'') = CHR '')''" by simp
  from str_split_after_sep [OF this] obtain P where
    P: "\<forall>y. str_split CHR '')'' ((pre @ '')'') @ y) = P @ str_split CHR '')'' y"
    by blast
  from P have "str_split CHR '')'' ((pre @ '')'') @ junk) = P @ [junk]"
    by (simp only: str_split_none [OF assms(4)])
  moreover from P have "str_split CHR '')'' ((pre @ '')'') @ []) = P @ [[]]"
    by (simp only: str_split_none [of "CHR '')''" "[]", simplified])
  ultimately have eq: "edges_of_section (pre @ CHR '')'' # junk) = edges_of_section (pre @ '')'')"
    by (simp add: edges_of_section_def)
  have s1: "CHR ''/'' \<notin> set (pre @ CHR '')'' # junk)" and s2: "CHR ''/'' \<notin> set (pre @ '')'')"
    using assms(2,3) by simp_all
  have a: "tucan_string_to_graph_edges (form @ CHR ''/'' # (pre @ CHR '')'' # junk) @ rest)
      = edges_of_section (pre @ CHR '')'' # junk)"
    by (rule edges_section [OF assms(1) s1 assms(5)])
  have b: "tucan_string_to_graph_edges (form @ CHR ''/'' # (pre @ '')'') @ rest)
      = edges_of_section (pre @ '')'')"
    by (rule edges_section [OF assms(1) s2 assms(5)])
  show "tucan_string_to_graph_edges (form @ CHR ''/'' # (pre @ CHR '')'' # junk) @ rest)
      = tucan_string_to_graph_edges (form @ CHR ''/'' # (pre @ '')'') @ rest)"
    unfolding a b by (rule eq)
qed

theorem text_after_last_bracket_is_dropped_witness:
  "CHR ''/'' \<notin> set ''C'' \<and> CHR ''/'' \<notin> set ''(1-2'' \<and> CHR ''/'' \<notin> set ''(3-''
   \<and> CHR '')'' \<notin> set ''(3-''
   \<and> tucan_string_to_graph_edges ''C/(3-'' = Inr []
   \<and> tucan_string_to_graph_edges ''C/(1-2)(3-'' = tucan_string_to_graph_edges ''C/(1-2)''"
proof -
  have 1: "CHR ''/'' \<notin> set ''C''" and 2: "CHR ''/'' \<notin> set ''(1-2''"
    and 3: "CHR ''/'' \<notin> set ''(3-''" and 4: "CHR '')'' \<notin> set ''(3-''"
    by simp_all
  have 5: "([] :: string) = [] \<or> hd [] = CHR ''/''" by simp
  have "tucan_string_to_graph_edges ''C/(3-'' = Inr []
    \<and> tucan_string_to_graph_edges ''C/(1-2)(3-'' = tucan_string_to_graph_edges ''C/(1-2)''"
    using text_after_last_bracket_is_dropped [OF 1 2 3 4 5] by simp
  with 1 2 3 4 show ?thesis by blast
qed

theorem error_before_last_bracket_counterexample:
  "length (str_split CHR ''/'' ''C/(a-b)x'') = 2
   \<and> last (str_split CHR ''/'' ''C/(a-b)x'' ! 1) \<noteq> CHR '')''
   \<and> tucan_string_to_graph_edges ''C/(a-b)x'' = Inl ValueError"
  by code_simp

end
